theory Spec2Isabelle
  imports Main "HOL-Library.Sublist"
begin

section \<open>Strings and the compiled patterns of \<open>MAASCPUAnalyzer\<close>\<close>

text \<open>
  A Python \<open>str\<close> is modelled as a \<^typ>\<open>string\<close>, one \<^typ>\<open>char\<close> per code point, so
  the code points 0 to 255. \<open>\s\<close> in a \<open>str\<close> pattern matches the characters for which
  \<open>str.isspace\<close> holds: below 256 these are 9 to 13, 28 to 32, U+0085 and U+00A0.
  \<open>str.upper\<close> is modelled on ASCII text (code points below 128), where it maps \<open>a..z\<close>
  to \<open>A..Z\<close> and leaves every other character as it is; what Python does to the letters
  from 128 on (U+00DF becomes \<open>SS\<close>, U+00E0 becomes U+00C0, U+00FF leaves the 8-bit range)
  is not modelled, and a statement that depends on it is made for ASCII text only.
\<close>

definition is_space :: "char \<Rightarrow> bool" where
  "is_space c =
     (let n = (of_char c :: nat)
      in (9 \<le> n \<and> n \<le> 13) \<or> (28 \<le> n \<and> n \<le> 32) \<or> n = 133 \<or> n = 160)"

definition is_ascii :: "char \<Rightarrow> bool" where
  "is_ascii c = ((of_char c :: nat) < 128)"

definition is_lower :: "char \<Rightarrow> bool" where
  "is_lower c = (let n = (of_char c :: nat) in 97 \<le> n \<and> n \<le> 122)"

definition is_upper :: "char \<Rightarrow> bool" where
  "is_upper c = (let n = (of_char c :: nat) in 65 \<le> n \<and> n \<le> 90)"

definition is_digit :: "char \<Rightarrow> bool" where
  "is_digit c = (let n = (of_char c :: nat) in 48 \<le> n \<and> n \<le> 57)"

definition upper_char :: "char \<Rightarrow> char" where
  "upper_char c = (if is_lower c then char_of (of_char c - (32::nat)) else c)"


text \<open>\<open>str.upper()\<close> and \<open>str.lower()\<close>.\<close>

definition upper :: "string \<Rightarrow> string" where
  "upper s = map upper_char s"


definition underscore :: char where
  "underscore = CHR ''_''"

definition newline :: char where
  "newline = CHR 0x0A"

text \<open>\<open>sub in s\<close> on strings: some position of \<open>s\<close> starts with \<open>sub\<close>.\<close>

fun contains :: "string \<Rightarrow> string \<Rightarrow> bool" where
  "contains sub [] = (sub = [])"
| "contains sub (c # cs) = (prefix sub (c # cs) \<or> contains sub cs)"

text \<open>\<open>s.strip("_")\<close>: the underscores at both ends are dropped.\<close>

definition strip_underscores :: "string \<Rightarrow> string" where
  "strip_underscores s =
     dropWhile (\<lambda>c. c = underscore) (rev (dropWhile (\<lambda>c. c = underscore) (rev s)))"

subsection \<open>Pattern matching at a position\<close>

text \<open>
  Each compiled pattern is a function that, given the text from the current position to
  the end, returns the length of the match starting there, if any. None of the three
  patterns looks behind the position, and none matches the empty string.

  \<open>_CPU_PROCESSOR_PATTERN = \s+(CPU|PROCESSOR)$\<close>: a greedy run of white space, one of
  the two words, then \<open>$\<close>, which (without \<open>re.MULTILINE\<close>) holds at the end of the
  text and also just before a newline that is the last character. Giving back white space
  never helps the match, since the next pattern character is a letter.
\<close>

definition match_CPU_PROCESSOR :: "string \<Rightarrow> nat option" where
  "match_CPU_PROCESSOR s =
     (let ws = takeWhile is_space s; r = dropWhile is_space s in
      if ws = [] then None
      else if r = ''CPU'' \<or> r = ''CPU'' @ [newline] then Some (length ws + 3)
      else if r = ''PROCESSOR'' \<or> r = ''PROCESSOR'' @ [newline] then Some (length ws + 9)
      else None)"

text \<open>\<open>_SPECIAL_CHARS_PATTERN = [^A-Z0-9]\<close>.\<close>

definition match_SPECIAL_CHARS :: "string \<Rightarrow> nat option" where
  "match_SPECIAL_CHARS s =
     (case s of [] \<Rightarrow> None | c # _ \<Rightarrow> if is_upper c \<or> is_digit c then None else Some 1)"

text \<open>\<open>_MULTIPLE_UNDERSCORES_PATTERN = _+\<close>, greedy.\<close>

definition match_MULTIPLE_UNDERSCORES :: "string \<Rightarrow> nat option" where
  "match_MULTIPLE_UNDERSCORES s =
     (let n = length (takeWhile (\<lambda>c. c = underscore) s) in if n = 0 then None else Some n)"

text \<open>
  \<open>pattern.sub(repl, s)\<close>: scan from the left; where the pattern matches, emit \<open>repl\<close>
  and go on after the match; elsewhere copy one character.
\<close>

function re_sub :: "(string \<Rightarrow> nat option) \<Rightarrow> string \<Rightarrow> string \<Rightarrow> string" where
  "re_sub m repl [] = []"
| "re_sub m repl (c # cs) =
     (case m (c # cs) of
        None \<Rightarrow> c # re_sub m repl cs
      | Some n \<Rightarrow> if n = 0 then c # re_sub m repl cs
                  else repl @ re_sub m repl (drop n (c # cs)))"
  by pat_completeness auto
termination
  by (relation "measure (\<lambda>(m, repl, s). length s)") auto

subsection \<open>\<open>generate_trait_name\<close>\<close>

definition generate_trait_name :: "string \<Rightarrow> string" where
  "generate_trait_name cpu_model =
     (if cpu_model = [] then ''CUSTOM_UNKNOWN_EMPTY''
      else
        let cpu_upper = upper cpu_model;
            cpu_clean1 = re_sub match_CPU_PROCESSOR [] cpu_upper;
            cpu_clean2 = re_sub match_SPECIAL_CHARS ''_'' cpu_clean1;
            cpu_clean3 = re_sub match_MULTIPLE_UNDERSCORES ''_'' cpu_clean2;
            cpu_clean = strip_underscores cpu_clean3
        in if contains ''INTEL'' cpu_clean then ''CUSTOM_'' @ cpu_clean
           else if contains ''AMD'' cpu_clean then ''CUSTOM_'' @ cpu_clean
           else ''CUSTOM_UNKNOWN_'' @ cpu_clean)"

subsection \<open>\<open>get_cpu_vendor\<close>\<close>




section \<open>Machine records and \<open>filter_machines\<close>\<close>

text \<open>
  The machine list is what \<open>response.json()\<close> returns: JSON values. An object is a
  Python \<open>dict\<close>, kept as an association list read with \<^const>\<open>map_of\<close>. The value of
  a number plays no part in the filter; it is kept as an integer.
\<close>

datatype json =
    JNull
  | JBool bool
  | JNum int
  | JStr string
  | JArr "json list"
  | JObj "(string \<times> json) list"

type_synonym dict = "(string \<times> json) list"

datatype py_error = AttributeError | TypeError | KeyError

text \<open>\<open>d.get(k, default)\<close>; \<open>d.get(k)\<close> is \<open>dict_get d k JNull\<close>.\<close>

definition dict_get :: "dict \<Rightarrow> string \<Rightarrow> json \<Rightarrow> json" where
  "dict_get d k dflt = (case map_of d k of Some v \<Rightarrow> v | None \<Rightarrow> dflt)"

text \<open>\<open>x.get(k, default)\<close> on any value: only a \<open>dict\<close> has the method.\<close>

definition py_get :: "json \<Rightarrow> string \<Rightarrow> json \<Rightarrow> py_error + json" where
  "py_get x k dflt = (case x of JObj d \<Rightarrow> Inr (dict_get d k dflt) | _ \<Rightarrow> Inl AttributeError)"

text \<open>Python's truth value of a JSON value.\<close>

fun truthy :: "json \<Rightarrow> bool" where
  "truthy JNull = False"
| "truthy (JBool b) = b"
| "truthy (JNum n) = (n \<noteq> 0)"
| "truthy (JStr s) = (s \<noteq> [])"
| "truthy (JArr xs) = (xs \<noteq> [])"
| "truthy (JObj d) = (d \<noteq> [])"

text \<open>
  \<open>x[0]\<close> for a value \<open>x\<close> that is true: the first element of a list, the first
  character of a string; a \<open>dict\<close> from JSON has string keys only, so the key \<open>0\<close> is
  missing; the other values cannot be indexed.
\<close>

fun first_item :: "json \<Rightarrow> py_error + json" where
  "first_item (JArr (x # xs)) = Inr x"
| "first_item (JStr (c # cs)) = Inr (JStr [c])"
| "first_item (JObj d) = Inl KeyError"
| "first_item x = Inl TypeError"

fun is_dict :: "json \<Rightarrow> bool" where
  "is_dict (JObj d) = True"
| "is_dict x = False"

text \<open>\<open>[tag.get("name", "") for tag in machine_tags]\<close>, stopping at the first tag
  that has no \<open>get\<close>.\<close>

fun tag_names_of :: "json list \<Rightarrow> py_error + json list" where
  "tag_names_of [] = Inr []"
| "tag_names_of (tag # tags) =
     (case py_get tag ''name'' (JStr []) of
        Inl e \<Rightarrow> Inl e
      | Inr n \<Rightarrow> (case tag_names_of tags of Inl e \<Rightarrow> Inl e | Inr ns \<Rightarrow> Inr (n # ns)))"

text \<open>
  \<open>set(x)\<close>, as the list of the elements: a list gives its elements, a string its
  characters, a \<open>dict\<close> its keys; lists and \<open>dict\<close>s cannot be elements; the other
  values cannot be iterated.
\<close>

fun hashable :: "json \<Rightarrow> bool" where
  "hashable (JArr xs) = False"
| "hashable (JObj d) = False"
| "hashable x = True"

fun py_set :: "json \<Rightarrow> py_error + json list" where
  "py_set (JArr xs) = (if list_all hashable xs then Inr xs else Inl TypeError)"
| "py_set (JStr s) = Inr (map (\<lambda>c. JStr [c]) s)"
| "py_set (JObj d) = Inr (map (\<lambda>(k, v). JStr k) d)"
| "py_set x = Inl TypeError"

text \<open>
  \<open>tags_set.intersection(machine_tags_set)\<close> is not empty: the filter tags are strings,
  and only a string equals a string.
\<close>

definition intersects :: "string list \<Rightarrow> json list \<Rightarrow> bool" where
  "intersects tags elems = list_ex (\<lambda>x. case x of JStr t \<Rightarrow> t \<in> set tags | _ \<Rightarrow> False) elems"

text \<open>The three checks of \<open>should_include_machine\<close>, in the order of the source.\<close>

definition zone_excludes :: "string option \<Rightarrow> dict \<Rightarrow> py_error + bool" where
  "zone_excludes zone machine =
     (case zone of
        None \<Rightarrow> Inr False
      | Some z \<Rightarrow>
          if z = [] then Inr False
          else (case py_get (dict_get machine ''zone'' (JObj [])) ''name'' JNull of
                  Inl e \<Rightarrow> Inl e
                | Inr n \<Rightarrow> Inr (n \<noteq> JStr z)))"

definition status_excludes :: "bool \<Rightarrow> dict \<Rightarrow> bool" where
  "status_excludes deployed_only machine =
     (deployed_only \<and> dict_get machine ''status_name'' JNull \<noteq> JStr ''Deployed'')"

definition tags_exclude :: "string list \<Rightarrow> dict \<Rightarrow> py_error + bool" where
  "tags_exclude tags machine =
     (if tags = [] then Inr False
      else
        let machine_tags = dict_get machine ''tag_names'' (JArr []) in
        case (if truthy machine_tags
              then (case first_item machine_tags of
                      Inl e \<Rightarrow> Inl e
                    | Inr x \<Rightarrow>
                        if is_dict x
                        then (case machine_tags of
                                JArr xs \<Rightarrow> (case tag_names_of xs of
                                             Inl e \<Rightarrow> Inl e | Inr ns \<Rightarrow> Inr (JArr ns))
                              | _ \<Rightarrow> Inr machine_tags)
                        else Inr machine_tags)
              else Inr machine_tags) of
          Inl e \<Rightarrow> Inl e
        | Inr machine_tags' \<Rightarrow>
            (case py_set machine_tags' of
               Inl e \<Rightarrow> Inl e
             | Inr machine_tags_set \<Rightarrow> Inr (\<not> intersects tags machine_tags_set)))"

definition should_include_machine ::
  "string option \<Rightarrow> bool \<Rightarrow> string list \<Rightarrow> dict \<Rightarrow> py_error + bool" where
  "should_include_machine zone deployed_only tags machine =
     (case zone_excludes zone machine of
        Inl e \<Rightarrow> Inl e
      | Inr True \<Rightarrow> Inr False
      | Inr False \<Rightarrow>
          if status_excludes deployed_only machine then Inr False
          else (case tags_exclude tags machine of
                  Inl e \<Rightarrow> Inl e
                | Inr True \<Rightarrow> Inr False
                | Inr False \<Rightarrow> Inr True))"

text \<open>The list comprehension: an exception in one test ends the whole call.\<close>

fun comprehension :: "(dict \<Rightarrow> py_error + bool) \<Rightarrow> dict list \<Rightarrow> py_error + dict list" where
  "comprehension p [] = Inr []"
| "comprehension p (m # ms) =
     (case p m of
        Inl e \<Rightarrow> Inl e
      | Inr b \<Rightarrow> (case comprehension p ms of
                    Inl e \<Rightarrow> Inl e
                  | Inr r \<Rightarrow> Inr (if b then m # r else r)))"

definition filter_machines ::
  "dict list \<Rightarrow> string option \<Rightarrow> bool \<Rightarrow> string list \<Rightarrow> py_error + dict list" where
  "filter_machines machines zone deployed_only tags =
     (if machines = [] then Inr []
      else comprehension (should_include_machine zone deployed_only tags) machines)"

section \<open>HTTP exchanges\<close>

text \<open>
  What the program sees of a \<open>requests.Response\<close>: the status code, the text Python
  prints for \<open>dict(response.headers)\<close>, the body (\<open>response.text\<close>), the text of
  the \<open>HTTPError\<close> that \<open>raise_for_status()\<close> raises for this response, and what
  \<open>json()\<close> gives, a value or an exception. Of the exceptions the program tells two
  classes apart.
\<close>

datatype http_exn =
    RequestException string "(int \<times> string) option"
  | JSONDecodeError string

record http_response =
  status_code :: int
  headers_repr :: string
  body_text :: string
  http_error_text :: string
  json_result :: "http_exn + json"

text \<open>
  \<open>RequestException msg resp\<close>: \<open>msg\<close> is \<open>str(e)\<close>, \<open>resp\<close> the status code and
  body of \<open>e.response\<close> when the exception carries a response.
\<close>

definition raise_for_status :: "http_response \<Rightarrow> http_exn option" where
  "raise_for_status r =
     (if 400 \<le> status_code r \<and> status_code r < 600
      then Some (RequestException (http_error_text r) (Some (status_code r, body_text r)))
      else None)"

text \<open>\<open>str(n)\<close> for an integer.\<close>

function str_nat :: "nat \<Rightarrow> string" where
  "str_nat n = (if n < 10 then [char_of (48 + n)] else str_nat (n div 10) @ [char_of (48 + n mod 10)])"
  by pat_completeness auto
termination
  by (relation "measure id") auto

definition str_int :: "int \<Rightarrow> string" where
  "str_int i = (if i < 0 then CHR ''-'' # str_nat (nat (- i)) else str_nat (nat i))"

section \<open>\<open>fetch_maas_data\<close>\<close>

text \<open>
  The effects of the call, in order: a line on \<open>stderr\<close>, and the inventory request
  \<open>session.get(api_url, auth=auth, timeout=30)\<close>. The call ends by \<open>sys.exit(n)\<close> or by
  returning the decoded body. The environment is \<open>os.environ\<close>; the transport
  \<open>session_get\<close> gives the response to the request or the \<open>RequestException\<close> it raises.
  \<open>log_prefix\<close> is the time stamp \<open>self.log\<close> puts before its lines.
\<close>

record oauth1 =
  client_key :: string
  resource_owner_key :: string
  resource_owner_secret :: string

datatype effect = Stderr string | Get string oauth1

datatype outcome = Exit int | Returned json

definition log :: "bool \<Rightarrow> string \<Rightarrow> string \<Rightarrow> effect list" where
  "log verbose log_prefix message =
     (if verbose then [Stderr (log_prefix @ '' '' @ message)] else [])"

text \<open>\<open>s.split(sep)\<close> for a one-character separator, and \<open>s.rstrip(c)\<close>.\<close>

fun split_on :: "char \<Rightarrow> string \<Rightarrow> string list" where
  "split_on sep [] = [[]]"
| "split_on sep (c # cs) =
     (if c = sep then [] # split_on sep cs
      else (case split_on sep cs of p # ps \<Rightarrow> (c # p) # ps | [] \<Rightarrow> [[c]]))"

definition rstrip :: "char \<Rightarrow> string \<Rightarrow> string" where
  "rstrip c s = rev (dropWhile (\<lambda>x. x = c) (rev s))"

text \<open>The two \<open>except\<close> clauses; both end in \<open>sys.exit(1)\<close>.\<close>

definition fetch_failed :: "bool \<Rightarrow> effect list \<Rightarrow> http_exn \<Rightarrow> effect list \<times> outcome" where
  "fetch_failed verbose out e =
     (case e of
        RequestException msg resp \<Rightarrow>
          (out @ [Stderr (''Error: Failed to fetch MAAS data: '' @ msg)] @
             (case resp of
                Some (st, body) \<Rightarrow>
                  if verbose
                  then [Stderr (''Response status: '' @ str_int st),
                        Stderr (''Response body: '' @ body)]
                  else []
              | None \<Rightarrow> []),
           Exit 1)
      | JSONDecodeError msg \<Rightarrow>
          (out @ [Stderr (''Error: Failed to parse MAAS JSON data: '' @ msg)], Exit 1))"

definition missing_config_message :: string where
  "missing_config_message = ''Error: MAAS_URL and MAAS_API_KEY environment variables must be set''"

definition malformed_key_message :: string where
  "malformed_key_message =
     ''Error: MAAS_API_KEY must be in format '' @ [CHR 0x27] @
     ''consumer_key:token_key:token_secret'' @ [CHR 0x27]"

definition fetch_maas_data ::
  "bool \<Rightarrow> string \<Rightarrow> (string \<rightharpoonup> string) \<Rightarrow> (string \<Rightarrow> oauth1 \<Rightarrow> http_exn + http_response) \<Rightarrow>
   effect list \<times> outcome" where
  "fetch_maas_data verbose log_prefix environ session_get =
     (let out0 = log verbose log_prefix ''Fetching machine data from MAAS...'' in
      case (environ ''MAAS_URL'', environ ''MAAS_API_KEY'') of
        (Some maas_url, Some maas_api_key) \<Rightarrow>
          if maas_url = [] \<or> maas_api_key = []
          then (out0 @ [Stderr missing_config_message], Exit 1)
          else
            let api_key_parts = split_on CHR '':'' maas_api_key in
            if length api_key_parts \<noteq> 3
            then (out0 @ [Stderr malformed_key_message], Exit 1)
            else
              let consumer_key = api_key_parts ! 0;
                  token_key = api_key_parts ! 1;
                  token_secret = api_key_parts ! 2;
                  auth = \<lparr>client_key = consumer_key, resource_owner_key = token_key,
                          resource_owner_secret = token_secret\<rparr>;
                  api_url = rstrip CHR ''/'' maas_url @ ''/api/2.0/machines/'';
                  out1 = out0 @ log verbose log_prefix (''Making request to: '' @ api_url) @
                         [Get api_url auth]
              in (case session_get api_url auth of
                    Inl e \<Rightarrow> fetch_failed verbose out1 e
                  | Inr response \<Rightarrow>
                      let out2 = out1 @
                            log verbose log_prefix
                              (''Response status: '' @ str_int (status_code response)) @
                            log verbose log_prefix
                              (''Response headers: '' @ headers_repr response) @
                            (if status_code response \<noteq> 200
                             then log verbose log_prefix
                                    (''Response body: '' @ body_text response)
                             else [])
                      in (case raise_for_status response of
                            Some e \<Rightarrow> fetch_failed verbose out2 e
                          | None \<Rightarrow>
                              (case json_result response of
                                 Inl e \<Rightarrow> fetch_failed verbose out2 e
                               | Inr data \<Rightarrow>
                                   (out2 @ log verbose log_prefix
                                             ''Successfully fetched machine data'',
                                    Returned data))))
      | _ \<Rightarrow> (out0 @ [Stderr missing_config_message], Exit 1))"

section \<open>The placement client: \<open>_set_resource_provider_traits\<close>\<close>

text \<open>
  A call of \<open>_make_placement_api_request(method, endpoint, data)\<close>: a \<open>GET\<close>, or the
  \<open>PUT\<close> of the trait list with the generation. The placement service, seen from the
  client, is a function \<open>api\<close> that gives the outcome of a call from the calls made
  before it and the call itself: the response, or the text of the exception the call
  raises (no endpoint, no token, a transport error). Every service, with whatever state
  and whatever other writers, is such a function for one run. The diagnostic lines of
  \<open>self.log\<close> are left out.
\<close>

datatype request = GET string | PUT string "string list" json

type_synonym placement = "request list \<Rightarrow> request \<Rightarrow> string + http_response"

definition SUCCESS_HTTP_CODES :: "int list" where
  "SUCCESS_HTTP_CODES = [200, 201, 204]"

definition MAX_RETRIES :: nat where
  "MAX_RETRIES = 3"

definition provider_endpoint :: "string \<Rightarrow> string" where
  "provider_endpoint resource_provider_id = ''/resource_providers/'' @ resource_provider_id"

definition traits_endpoint :: "string \<Rightarrow> string" where
  "traits_endpoint resource_provider_id =
     ''/resource_providers/'' @ resource_provider_id @ ''/traits''"

text \<open>
  The body of \<open>for attempt in range(self.MAX_RETRIES)\<close>, over the attempts still to
  run; \<open>trace\<close> holds the calls made so far. The result is the returned flag and the
  calls made. Every exception inside the two \<open>try\<close> blocks ends the call with \<open>False\<close>
  (\<open>_handle_error\<close> returns its third argument).
\<close>

fun retry_loop ::
  "placement \<Rightarrow> string \<Rightarrow> string list \<Rightarrow> nat list \<Rightarrow> request list \<Rightarrow> bool \<times> request list" where
  "retry_loop api resource_provider_id trait_names [] trace = (False, trace)"
| "retry_loop api resource_provider_id trait_names (attempt # rest) trace =
     (let read = GET (provider_endpoint resource_provider_id) in
      case api trace read of
        Inl e \<Rightarrow> (False, trace @ [read])
      | Inr rp_response \<Rightarrow>
          if status_code rp_response \<notin> set SUCCESS_HTTP_CODES then (False, trace @ [read])
          else
            (case json_result rp_response of
               Inl e \<Rightarrow> (False, trace @ [read])
             | Inr rp_data \<Rightarrow>
                 (case py_get rp_data ''generation'' (JNum 0) of
                    Inl e \<Rightarrow> (False, trace @ [read])
                  | Inr generation \<Rightarrow>
                      let put = PUT (traits_endpoint resource_provider_id) trait_names generation
                      in (case api (trace @ [read]) put of
                            Inl e \<Rightarrow> (False, trace @ [read, put])
                          | Inr response \<Rightarrow>
                              if status_code response \<in> set SUCCESS_HTTP_CODES
                              then (True, trace @ [read, put])
                              else if status_code response = 409 \<and> attempt < MAX_RETRIES - 1
                              then retry_loop api resource_provider_id trait_names rest
                                     (trace @ [read, put])
                              else (False, trace @ [read, put])))))"

definition set_resource_provider_traits ::
  "placement \<Rightarrow> string \<Rightarrow> string list \<Rightarrow> bool \<times> request list" where
  "set_resource_provider_traits api resource_provider_id trait_names =
     retry_loop api resource_provider_id trait_names [0..<MAX_RETRIES] []"

section \<open>The steps of the trait-name derivation, described on their own\<close>

text \<open>Runs of underscores become one underscore.\<close>

fun collapse_underscores :: "string \<Rightarrow> string" where
  "collapse_underscores [] = []"
| "collapse_underscores [c] = [c]"
| "collapse_underscores (c # d # cs) =
     (if c = underscore \<and> d = underscore then collapse_underscores (d # cs)
      else c # collapse_underscores (d # cs))"

text \<open>Every character outside \<open>[A-Z0-9]\<close> becomes an underscore.\<close>

definition replace_special :: "string \<Rightarrow> string" where
  "replace_special s = map (\<lambda>c. if is_upper c \<or> is_digit c then c else underscore) s"

text \<open>
  What the suffix pattern removes, read from the end of the text: the text, less one
  final newline if it has one, ends with \<open>CPU\<close> or \<open>PROCESSOR\<close>, and at least one white
  space stands before that word. The word and all the white space before it go; a final
  newline stays.
\<close>

definition strip_trailing_token :: "string \<Rightarrow> string" where
  "strip_trailing_token s =
     (let tail = (if s \<noteq> [] \<and> last s = newline then [newline] else []);
          body = take (length s - length tail) s;
          tok = (if suffix ''CPU'' body then ''CPU''
                 else if suffix ''PROCESSOR'' body then ''PROCESSOR'' else []);
          front = take (length body - length tok) body
      in if tok \<noteq> [] \<and> front \<noteq> [] \<and> is_space (last front)
         then rev (dropWhile is_space (rev front)) @ tail
         else s)"

text \<open>The cleaned form of a CPU model (\<open>cpu_clean\<close> in the source), step by step.\<close>

definition cleaned :: "string \<Rightarrow> string" where
  "cleaned s =
     strip_underscores (collapse_underscores (replace_special (strip_trailing_token (upper s))))"

definition vendor_prefix :: "string \<Rightarrow> string" where
  "vendor_prefix k =
     (if sublist ''INTEL'' k \<or> sublist ''AMD'' k then ''CUSTOM_'' else ''CUSTOM_UNKNOWN_'')"

definition stepwise_trait_name :: "string \<Rightarrow> string" where
  "stepwise_trait_name s =
     (if s = [] then ''CUSTOM_UNKNOWN_EMPTY'' else vendor_prefix (cleaned s) @ cleaned s)"

text \<open>
  The specification's wording of the second step, "strip a trailing CPU or PROCESSOR
  token": the text ends with one of the two words as a token of its own, that is at the
  start of the text or after white space, and the word is removed.
\<close>

definition claimed_strip_token :: "string \<Rightarrow> string" where
  "claimed_strip_token s =
     (let tok = (if suffix ''CPU'' s then ''CPU''
                 else if suffix ''PROCESSOR'' s then ''PROCESSOR'' else []);
          front = take (length s - length tok) s
      in if tok \<noteq> [] \<and> (front = [] \<or> is_space (last front)) then front else s)"

definition claimed_trait_name :: "string \<Rightarrow> string" where
  "claimed_trait_name s =
     (if s = [] then ''CUSTOM_UNKNOWN_EMPTY''
      else
        let k = strip_underscores
                  (collapse_underscores (replace_special (claimed_strip_token (upper s))))
        in vendor_prefix k @ k)"

subsection \<open>Well-formed trait names\<close>

definition trait_char :: "char \<Rightarrow> bool" where
  "trait_char c = (is_upper c \<or> is_digit c \<or> c = underscore)"

text \<open>Two underscores side by side somewhere in the text.\<close>

fun doubled_underscore :: "string \<Rightarrow> bool" where
  "doubled_underscore [] = False"
| "doubled_underscore [c] = False"
| "doubled_underscore (c # d # cs) =
     ((c = underscore \<and> d = underscore) \<or> doubled_underscore (d # cs))"

definition well_formed_trait :: "string \<Rightarrow> bool" where
  "well_formed_trait t =
     (list_all trait_char t \<and> prefix ''CUSTOM_'' t \<and> hd t \<noteq> underscore \<and>
      last t \<noteq> underscore \<and> \<not> doubled_underscore t)"

text \<open>
  The shape \<open>white space, word, optional final newline\<close> that the suffix pattern matches.
\<close>

definition cpu_form :: "string \<Rightarrow> string \<Rightarrow> string \<Rightarrow> bool" where
  "cpu_form ws tok tail =
     (ws \<noteq> [] \<and> list_all is_space ws \<and> (tok = ''CPU'' \<or> tok = ''PROCESSOR'') \<and>
      (tail = [] \<or> tail = [newline]))"

section \<open>The filter stage, the inventory fetch and the retry loop, described\<close>

subsection \<open>The filter stage on machine records\<close>

text \<open>The zone name of a machine record, its status, and the names in its tag list.\<close>

definition machine_zone_name :: "dict \<Rightarrow> json option" where
  "machine_zone_name m = (case map_of m ''zone'' of Some (JObj z) \<Rightarrow> map_of z ''name'' | _ \<Rightarrow> None)"

definition in_zone :: "string \<Rightarrow> dict \<Rightarrow> bool" where
  "in_zone z m = (machine_zone_name m = Some (JStr z))"

definition deployed :: "dict \<Rightarrow> bool" where
  "deployed m = (map_of m ''status_name'' = Some (JStr ''Deployed''))"

fun tag_name :: "json \<Rightarrow> string option" where
  "tag_name (JStr t) = Some t"
| "tag_name (JObj d) = (case map_of d ''name'' of Some (JStr t) \<Rightarrow> Some t | _ \<Rightarrow> None)"
| "tag_name x = None"

definition machine_tags :: "dict \<Rightarrow> string list" where
  "machine_tags m =
     (case map_of m ''tag_names'' of Some (JArr xs) \<Rightarrow> List.map_filter tag_name xs | _ \<Rightarrow> [])"

definition has_tag_in :: "string list \<Rightarrow> dict \<Rightarrow> bool" where
  "has_tag_in tags m = (set (machine_tags m) \<inter> set tags \<noteq> {})"

text \<open>
  A filter is supplied when it is true in Python: a zone that is a non-empty string, the
  flag set, a non-empty tag list. A machine is selected when every supplied filter holds.
\<close>

definition selected :: "string option \<Rightarrow> bool \<Rightarrow> string list \<Rightarrow> dict \<Rightarrow> bool" where
  "selected zone deployed_only tags m =
     ((case zone of None \<Rightarrow> True | Some z \<Rightarrow> z = [] \<or> in_zone z m) \<and>
      (deployed_only \<longrightarrow> deployed m) \<and>
      (tags = [] \<or> has_tag_in tags m))"

text \<open>
  The machine records the filter is written for: the zone, if present, is an object, and
  the tag list, if present, is a list of bare strings or a list of records with a string
  under \<open>name\<close>.
\<close>

fun bare_tag :: "json \<Rightarrow> bool" where
  "bare_tag (JStr t) = True"
| "bare_tag x = False"

fun record_tag :: "json \<Rightarrow> bool" where
  "record_tag (JObj d) = (case map_of d ''name'' of Some (JStr t) \<Rightarrow> True | _ \<Rightarrow> False)"
| "record_tag x = False"

definition wf_machine :: "dict \<Rightarrow> bool" where
  "wf_machine m =
     ((case map_of m ''zone'' of None \<Rightarrow> True | Some (JObj z) \<Rightarrow> True | _ \<Rightarrow> False) \<and>
      (case map_of m ''tag_names'' of
         None \<Rightarrow> True
       | Some (JArr xs) \<Rightarrow> list_all bare_tag xs \<or> list_all record_tag xs
       | _ \<Rightarrow> False))"

subsection \<open>Two machine records\<close>

text \<open>Records as the inventory service sends them, one with bare tags, one with tag records.\<close>

definition machine_a :: dict where
  "machine_a =
     [(''hostname'', JStr ''node-a''), (''zone'', JObj [(''name'', JStr ''zone-1'')]),
      (''status_name'', JStr ''Deployed''),
      (''tag_names'', JArr [JStr ''compute'', JStr ''gpu''])]"

definition machine_b :: dict where
  "machine_b =
     [(''hostname'', JStr ''node-b''), (''zone'', JObj [(''name'', JStr ''zone-2'')]),
      (''status_name'', JStr ''Ready''),
      (''tag_names'', JArr [JObj [(''name'', JStr ''storage'')]])]"

subsection \<open>Effects of the inventory fetch\<close>

fun is_get :: "effect \<Rightarrow> bool" where
  "is_get (Get url auth) = True"
| "is_get (Stderr line) = False"

subsection \<open>Write attempts and fresh reads\<close>

fun is_put :: "request \<Rightarrow> bool" where
  "is_put (PUT endpoint traits generation) = True"
| "is_put (GET endpoint) = False"

definition write_attempts :: "request list \<Rightarrow> nat" where
  "write_attempts trace = length (filter is_put trace)"

text \<open>A read that gives a generation: a success status and a JSON object as body.\<close>

definition read_generation :: "http_response \<Rightarrow> json option" where
  "read_generation r =
     (if status_code r \<in> set SUCCESS_HTTP_CODES
      then (case json_result r of
              Inr (JObj d) \<Rightarrow> Some (dict_get d ''generation'' (JNum 0))
            | _ \<Rightarrow> None)
      else None)"

text \<open>
  The calls \<open>calls\<close>, made after the calls \<open>before\<close>, come in rounds: a read of the
  provider, then at most one write, and the write carries the generation that this very
  read returned. A read without a write can only be the last call.
\<close>

fun fresh_reads :: "placement \<Rightarrow> string \<Rightarrow> string list \<Rightarrow> request list \<Rightarrow> request list \<Rightarrow> bool" where
  "fresh_reads api rp traits before [] = True"
| "fresh_reads api rp traits before [x] = (x = GET (provider_endpoint rp))"
| "fresh_reads api rp traits before (x # y # calls) =
     (x = GET (provider_endpoint rp) \<and>
      (case api before x of
         Inl e \<Rightarrow> False
       | Inr r \<Rightarrow> (case read_generation r of
                    None \<Rightarrow> False
                  | Some g \<Rightarrow> y = PUT (traits_endpoint rp) traits g)) \<and>
      fresh_reads api rp traits (before @ [x, y]) calls)"

definition retries :: "request list \<Rightarrow> nat" where
  "retries trace = write_attempts trace - 1"

text \<open>
  Every read of the provider succeeds; and the write attempts are answered, the
  \<open>n\<close>-th of them with the \<open>n\<close>-th status of a list.
\<close>

definition reads_succeed :: "placement \<Rightarrow> string \<Rightarrow> bool" where
  "reads_succeed api rp =
     (\<forall>h. \<exists>r. api h (GET (provider_endpoint rp)) = Inr r \<and> read_generation r \<noteq> None)"

definition writes_receive :: "placement \<Rightarrow> string \<Rightarrow> string list \<Rightarrow> int list \<Rightarrow> bool" where
  "writes_receive api rp traits statuses =
     (\<forall>h g. write_attempts h < length statuses \<longrightarrow>
        (\<exists>w. api h (PUT (traits_endpoint rp) traits g) = Inr w \<and>
             status_code w = statuses ! write_attempts h))"

text \<open>
  A service for the examples: the generation read is the number of writes so far, and the
  writes are answered from a list of statuses (with 500 once the list is used up).
\<close>

definition scripted :: "int list \<Rightarrow> placement" where
  "scripted statuses h req =
     (case req of
        GET endpoint \<Rightarrow>
          Inr \<lparr>status_code = 200, headers_repr = [], body_text = [], http_error_text = [],
               json_result = Inr (JObj [(''generation'', JNum (int (write_attempts h)))])\<rparr>
      | PUT endpoint traits generation \<Rightarrow>
          Inr \<lparr>status_code =
                 (if write_attempts h < length statuses then statuses ! write_attempts h
                  else 500),
               headers_repr = [], body_text = [], http_error_text = [],
               json_result = Inr JNull\<rparr>)"

section \<open>The regular-expression substitutions are the described steps\<close>

lemma re_sub_no_match:
  "(\<And>t. suffix t s \<Longrightarrow> m t = None) \<Longrightarrow> re_sub m repl s = s"
proof (induction s)
  case Nil
  then show ?case by simp
next
  case (Cons c cs)
  have "m (c # cs) = None" using Cons.prems[of "c # cs"] by simp
  moreover have "re_sub m repl cs = cs"
    using Cons.IH Cons.prems by (simp add: suffix_Cons)
  ultimately show ?case by simp
qed

lemma is_space_newline [simp]: "is_space newline"
  by (simp add: is_space_def newline_def)

lemma not_space_letters [simp]:
  "\<not> is_space CHR ''C''" "\<not> is_space CHR ''P''" "\<not> is_space CHR ''U''" "\<not> is_space CHR ''R''"
  by (simp_all add: is_space_def)

lemma match_CPU_PROCESSOR_form:
  assumes "cpu_form ws tok tail"
  shows "match_CPU_PROCESSOR (ws @ tok @ tail) = Some (length ws + length tok)"
proof -
  have ws: "ws \<noteq> []" "\<forall>c \<in> set ws. is_space c" using assms by (simp_all add: cpu_form_def list_all_iff)
  have tok: "tok \<noteq> []" "\<not> is_space (hd tok)" using assms by (auto simp: cpu_form_def list_all_iff)
  have t: "takeWhile is_space (ws @ tok @ tail) = ws"
    using ws tok by (cases tok) (simp_all add: takeWhile_append2)
  have d: "dropWhile is_space (ws @ tok @ tail) = tok @ tail"
    using ws tok by (cases tok) (simp_all add: dropWhile_append2)
  show ?thesis
    unfolding match_CPU_PROCESSOR_def t d using assms ws
    by (auto simp: cpu_form_def list_all_iff Let_def)
qed

lemma match_CPU_PROCESSOR_SomeD:
  assumes "match_CPU_PROCESSOR s = Some n"
  shows "\<exists>ws tok tail. s = ws @ tok @ tail \<and> cpu_form ws tok tail \<and> n = length ws + length tok"
proof -
  let ?ws = "takeWhile is_space s" and ?r = "dropWhile is_space s"
  have s: "s = ?ws @ ?r" by simp
  have sp: "\<forall>c \<in> set ?ws. is_space c" by (auto dest: set_takeWhileD)
  from assms have ne: "?ws \<noteq> []"
    by (auto simp: match_CPU_PROCESSOR_def Let_def split: if_splits)
  from assms ne consider
      (c) "(?r = ''CPU'' \<or> ?r = ''CPU'' @ [newline])" "n = length ?ws + 3"
    | (p) "(?r = ''PROCESSOR'' \<or> ?r = ''PROCESSOR'' @ [newline])" "n = length ?ws + 9"
    by (auto simp: match_CPU_PROCESSOR_def Let_def split: if_splits)
  then show ?thesis
  proof cases
    case c
    then obtain tail where "?r = ''CPU'' @ tail" "tail = [] \<or> tail = [newline]" by auto
    with s sp ne c(2) show ?thesis
      by (intro exI[of _ ?ws] exI[of _ "''CPU''"] exI[of _ tail]) (simp add: cpu_form_def list_all_iff)
  next
    case p
    then obtain tail where "?r = ''PROCESSOR'' @ tail" "tail = [] \<or> tail = [newline]" by auto
    with s sp ne p(2) show ?thesis
      by (intro exI[of _ ?ws] exI[of _ "''PROCESSOR''"] exI[of _ tail]) (simp add: cpu_form_def list_all_iff)
  qed
qed

lemma cpu_form_unique:
  assumes "p @ ws @ tok @ tail = ws' @ tok' @ tail'" "cpu_form ws tok tail" "cpu_form ws' tok' tail'"
  shows "ws' = p @ ws"
proof -
  have "rev tail @ rev tok @ rev ws @ rev p = rev tail' @ rev tok' @ rev ws'"
    using arg_cong[OF assms(1), of rev] by simp
  then have "rev ws @ rev p = rev ws'"
    using assms(2,3) by (auto simp: cpu_form_def list_all_iff newline_def)
  then have "rev (p @ ws) = rev ws'" by simp
  then show ?thesis by (simp only: rev_is_rev_conv)
qed

lemma match_CPU_PROCESSOR_None:
  assumes "p \<noteq> []" "\<not> is_space (last p)" "cpu_form ws tok tail"
  shows "match_CPU_PROCESSOR (p @ ws @ tok @ tail) = None"
proof (rule ccontr)
  assume "match_CPU_PROCESSOR (p @ ws @ tok @ tail) \<noteq> None"
  then obtain n where "match_CPU_PROCESSOR (p @ ws @ tok @ tail) = Some n" by auto
  from match_CPU_PROCESSOR_SomeD[OF this] obtain ws' tok' tail' where
    e: "p @ ws @ tok @ tail = ws' @ tok' @ tail'" and f: "cpu_form ws' tok' tail'" by auto
  have "ws' = p @ ws" using cpu_form_unique[OF e assms(3) f] .
  then have "last p \<in> set ws'" using assms(1) by simp
  then show False using f assms(2) by (auto simp: cpu_form_def list_all_iff)
qed

lemma re_sub_CPU_PROCESSOR_tail:
  assumes "tail = [] \<or> tail = [newline]"
  shows "re_sub match_CPU_PROCESSOR [] tail = tail"
  using assms by (auto simp: match_CPU_PROCESSOR_def)

lemma re_sub_CPU_PROCESSOR_form:
  assumes "cpu_form ws tok tail" "p = [] \<or> \<not> is_space (last p)"
  shows "re_sub match_CPU_PROCESSOR [] (p @ ws @ tok @ tail) = p @ tail"
  using assms(2)
proof (induction p)
  case Nil
  obtain c cs where cs: "ws @ tok @ tail = c # cs"
    using assms(1) by (cases ws) (auto simp: cpu_form_def list_all_iff)
  have m: "match_CPU_PROCESSOR (c # cs) = Some (length ws + length tok)"
    using match_CPU_PROCESSOR_form[OF assms(1)] cs by simp
  have pos: "length ws + length tok \<noteq> 0" using assms(1) by (auto simp: cpu_form_def list_all_iff)
  have "drop (length ws + length tok) (c # cs) = tail"
    using cs[symmetric] by simp
  moreover have "re_sub match_CPU_PROCESSOR [] tail = tail"
    using assms(1) by (intro re_sub_CPU_PROCESSOR_tail) (simp add: cpu_form_def list_all_iff)
  ultimately have "re_sub match_CPU_PROCESSOR [] (c # cs) = tail"
    using m pos by (auto simp del: drop_Suc_Cons)
  then show ?case using cs by simp
next
  case (Cons c p)
  have "match_CPU_PROCESSOR ((c # p) @ ws @ tok @ tail) = None"
    using Cons.prems assms(1) by (intro match_CPU_PROCESSOR_None) simp_all
  moreover have "p = [] \<or> \<not> is_space (last p)" using Cons.prems by (auto split: if_splits)
  ultimately show ?case using Cons.IH by simp
qed

lemma suffix_CPU_PROCESSOR:
  "suffix ''CPU'' (front @ ''CPU'')" "\<not> suffix ''CPU'' (front @ ''PROCESSOR'')"
  "suffix ''PROCESSOR'' (front @ ''PROCESSOR'')"
  by (simp_all add: suffix_to_prefix)

lemma strip_trailing_token_eq:
  assumes "tok = ''CPU'' \<or> tok = ''PROCESSOR''" "tail = [] \<or> tail = [newline]"
    "front \<noteq> []" "is_space (last front)"
  shows "strip_trailing_token (front @ tok @ tail) = rev (dropWhile is_space (rev front)) @ tail"
proof -
  let ?s = "front @ tok @ tail"
  have tk: "tok \<noteq> []" "last tok \<noteq> newline" using assms(1) by (auto simp: newline_def)
  have t: "(if ?s \<noteq> [] \<and> last ?s = newline then [newline] else []) = tail"
    using assms(2) tk by auto
  have b: "take (length ?s - length tail) ?s = front @ tok" by simp
  have k: "(if suffix ''CPU'' (front @ tok) then ''CPU''
            else if suffix ''PROCESSOR'' (front @ tok) then ''PROCESSOR'' else []) = tok"
    using assms(1) suffix_CPU_PROCESSOR[of front] by presburger
  have f: "take (length (front @ tok) - length tok) (front @ tok) = front" by simp
  show ?thesis
    unfolding strip_trailing_token_def Let_def t b k f using tk(1) assms(3,4) by simp
qed

lemma strip_trailing_token_form:
  assumes "cpu_form ws tok tail" "p = [] \<or> \<not> is_space (last p)"
  shows "strip_trailing_token (p @ ws @ tok @ tail) = p @ tail"
proof -
  have w: "ws \<noteq> []" "\<And>x. x \<in> set (rev ws) \<Longrightarrow> is_space x" "is_space (last ws)"
    using assms(1) by (simp_all add: cpu_form_def list_all_iff)
  have "dropWhile is_space (rev ws @ rev p) = dropWhile is_space (rev p)"
    using w(2) by (rule dropWhile_append2)
  also have "\<dots> = rev p"
    using assms(2) by (cases "rev p") (auto simp: last_rev hd_rev[symmetric])
  finally have d: "dropWhile is_space (rev (p @ ws)) = rev p" by simp
  have l: "is_space (last (p @ ws))" using w(1,3) by simp
  have "strip_trailing_token ((p @ ws) @ tok @ tail) =
          rev (dropWhile is_space (rev (p @ ws))) @ tail"
    using assms(1) w(1) l by (intro strip_trailing_token_eq) (simp_all add: cpu_form_def)
  then show ?thesis unfolding d by simp
qed

lemma cpu_form_normalise:
  assumes "s = p0 @ ws @ tok @ tail" "cpu_form ws tok tail"
  shows "\<exists>p ws'. s = p @ ws' @ tok @ tail \<and> cpu_form ws' tok tail \<and> (p = [] \<or> \<not> is_space (last p))"
proof -
  let ?p = "rev (dropWhile is_space (rev p0))"
  let ?ws = "rev (takeWhile is_space (rev p0)) @ ws"
  have "p0 = ?p @ rev (takeWhile is_space (rev p0))"
    by (metis rev_append rev_rev_ident takeWhile_dropWhile_id)
  then have "s = ?p @ ?ws @ tok @ tail" using assms(1) by simp
  moreover have "cpu_form ?ws tok tail"
    using assms(2) by (auto simp: cpu_form_def list_all_iff dest: set_takeWhileD)
  moreover have "?p = [] \<or> \<not> is_space (last ?p)"
  proof (cases "dropWhile is_space (rev p0)")
    case Nil
    then show ?thesis by simp
  next
    case (Cons a list)
    then have "\<not> is_space a" by (simp add: dropWhile_eq_Cons_conv)
    moreover have "last ?p = a" unfolding Cons by simp
    ultimately show ?thesis by simp
  qed
  ultimately show ?thesis by blast
qed

lemma strip_trailing_token_changes:
  assumes "strip_trailing_token s \<noteq> s"
  shows "\<exists>p0 ws tok tail. s = p0 @ ws @ tok @ tail \<and> cpu_form ws tok tail"
proof -
  define tail where "tail = (if s \<noteq> [] \<and> last s = newline then [newline] else [])"
  define body where "body = take (length s - length tail) s"
  define tok where "tok = (if suffix ''CPU'' body then ''CPU''
                 else if suffix ''PROCESSOR'' body then ''PROCESSOR'' else [])"
  define before where "before = take (length body - length tok) body"
  have c: "tok \<noteq> [] \<and> before \<noteq> [] \<and> is_space (last before)"
  proof (rule ccontr)
    assume n: "\<not> (tok \<noteq> [] \<and> before \<noteq> [] \<and> is_space (last before))"
    have "strip_trailing_token s = s"
      unfolding strip_trailing_token_def Let_def
      by (simp only: n[unfolded before_def tok_def body_def tail_def] if_False)
    then show False using assms by simp
  qed
  have s: "s = body @ tail"
    unfolding body_def tail_def by (cases s rule: rev_cases) auto
  have "suffix tok body" unfolding tok_def by (auto split: if_splits)
  then have b: "body = before @ tok" unfolding before_def by (auto simp: suffix_def)
  have bf: "before = butlast before @ [last before]" using c by simp
  have "s = butlast before @ [last before] @ tok @ tail" using s b bf by simp
  moreover have "cpu_form [last before] tok tail"
    using c unfolding cpu_form_def list_all_iff tok_def tail_def by (auto split: if_splits)
  ultimately show ?thesis by blast
qed

lemma re_sub_CPU_PROCESSOR:
  "re_sub match_CPU_PROCESSOR [] s = strip_trailing_token s"
proof (cases "\<exists>p0 ws tok tail. s = p0 @ ws @ tok @ tail \<and> cpu_form ws tok tail")
  case True
  then obtain p0 ws0 tok tail where "s = p0 @ ws0 @ tok @ tail" "cpu_form ws0 tok tail" by blast
  from cpu_form_normalise[OF this] obtain p ws where
    s: "s = p @ ws @ tok @ tail" and f: "cpu_form ws tok tail" and p: "p = [] \<or> \<not> is_space (last p)"
    by blast
  show ?thesis
    unfolding s using re_sub_CPU_PROCESSOR_form[OF f p] strip_trailing_token_form[OF f p] by simp
next
  case False
  have "match_CPU_PROCESSOR t = None" if st: "suffix t s" for t
  proof (rule ccontr)
    assume "match_CPU_PROCESSOR t \<noteq> None"
    then obtain n where "match_CPU_PROCESSOR t = Some n" by auto
    from match_CPU_PROCESSOR_SomeD[OF this] obtain ws tok tail where
      "t = ws @ tok @ tail" "cpu_form ws tok tail" by blast
    moreover obtain p0 where "s = p0 @ t" using st by (auto simp: suffix_def)
    ultimately show False using False by blast
  qed
  then have "re_sub match_CPU_PROCESSOR [] s = s" by (rule re_sub_no_match)
  moreover have "strip_trailing_token s = s"
    using False strip_trailing_token_changes by blast
  ultimately show ?thesis by simp
qed

lemma re_sub_SPECIAL_CHARS:
  "re_sub match_SPECIAL_CHARS ''_'' s = replace_special s"
  by (induction s) (simp_all add: match_SPECIAL_CHARS_def replace_special_def underscore_def)

lemma re_sub_MULTIPLE_UNDERSCORES_Cons:
  "re_sub match_MULTIPLE_UNDERSCORES ''_'' (c # cs) =
     (if c = underscore
      then underscore # re_sub match_MULTIPLE_UNDERSCORES ''_'' (dropWhile (\<lambda>c. c = underscore) cs)
      else c # re_sub match_MULTIPLE_UNDERSCORES ''_'' cs)"
  by (simp add: match_MULTIPLE_UNDERSCORES_def dropWhile_eq_drop underscore_def)

lemma collapse_underscores_Cons:
  "collapse_underscores (c # cs) =
     (if c = underscore
      then underscore # collapse_underscores (dropWhile (\<lambda>c. c = underscore) cs)
      else c # collapse_underscores cs)"
proof (induction cs arbitrary: c)
  case Nil
  then show ?case by simp
next
  case (Cons d cs)
  show ?case using Cons.IH[of d] by (cases "d = underscore") simp_all
qed

lemma re_sub_MULTIPLE_UNDERSCORES:
  "re_sub match_MULTIPLE_UNDERSCORES ''_'' s = collapse_underscores s"
proof (induction s rule: length_induct)
  case (1 s)
  show ?case
  proof (cases s)
    case Nil
    then show ?thesis by simp
  next
    case (Cons c cs)
    have "length (dropWhile (\<lambda>c. c = underscore) cs) < length s"
      using Cons length_dropWhile_le[of "\<lambda>c. c = underscore" cs] by simp
    moreover have "length cs < length s" using Cons by simp
    ultimately show ?thesis
      using 1 Cons
      by (simp only: re_sub_MULTIPLE_UNDERSCORES_Cons collapse_underscores_Cons split: if_splits)
  qed
qed

lemma contains_sublist: "contains sub s = sublist sub s"
  by (induction s) (auto simp: sublist_Cons_right)

lemma generate_trait_name_stepwise:
  "generate_trait_name s = stepwise_trait_name s"
  by (simp add: generate_trait_name_def stepwise_trait_name_def cleaned_def vendor_prefix_def
      re_sub_CPU_PROCESSOR re_sub_SPECIAL_CHARS re_sub_MULTIPLE_UNDERSCORES contains_sublist
      Let_def)

section \<open>Properties of the cleaned form and of the derived name\<close>

lemma trait_char_not_space: "trait_char c \<Longrightarrow> \<not> is_space c"
  by (auto simp: trait_char_def is_space_def is_upper_def is_digit_def underscore_def Let_def)

lemma trait_char_upper: "trait_char c \<Longrightarrow> upper_char c = c"
  by (auto simp: trait_char_def upper_char_def is_lower_def is_upper_def is_digit_def
      underscore_def Let_def)

lemma trait_char_keep:
  "trait_char c \<Longrightarrow> (if is_upper c \<or> is_digit c then c else underscore) = c"
  by (auto simp: trait_char_def)

lemma list_all_trait_char_replace_special: "list_all trait_char (replace_special s)"
  by (induction s) (simp_all add: replace_special_def trait_char_def)

lemma set_collapse_underscores: "set (collapse_underscores s) \<subseteq> set s"
  by (induction s rule: collapse_underscores.induct) auto

lemma set_strip_underscores: "set (strip_underscores s) \<subseteq> set s"
proof -
  have "set (strip_underscores s) \<subseteq> set (rev (dropWhile (\<lambda>c. c = underscore) (rev s)))"
    unfolding strip_underscores_def by (rule set_dropWhileD[THEN subsetI]) 
  also have "\<dots> \<subseteq> set s" using set_dropWhileD[of _ "\<lambda>c. c = underscore" "rev s"] by auto
  finally show ?thesis .
qed

lemma list_all_trait_char_cleaned: "list_all trait_char (cleaned s)"
proof -
  have "set (cleaned s) \<subseteq> set (replace_special (strip_trailing_token (upper s)))"
    unfolding cleaned_def using set_strip_underscores set_collapse_underscores by blast
  then show ?thesis
    using list_all_trait_char_replace_special[of "strip_trailing_token (upper s)"]
    by (auto simp: list_all_iff)
qed

lemma doubled_underscore_append:
  "doubled_underscore (xs @ ys) \<longleftrightarrow>
     doubled_underscore xs \<or> doubled_underscore ys \<or>
     (xs \<noteq> [] \<and> ys \<noteq> [] \<and> last xs = underscore \<and> hd ys = underscore)"
proof (induction xs rule: doubled_underscore.induct)
  case 1
  then show ?case by simp
next
  case (2 c)
  then show ?case by (cases ys) auto
next
  case (3 c d cs)
  then show ?case by auto
qed

lemma hd_collapse_underscores: "hd (collapse_underscores (c # cs)) = c"
  by (simp add: collapse_underscores_Cons)

lemma collapse_underscores_not_doubled: "\<not> doubled_underscore (collapse_underscores s)"
proof (induction s rule: collapse_underscores.induct)
  case 1
  then show ?case by simp
next
  case (2 c)
  then show ?case by simp
next
  case (3 c d cs)
  obtain r where r: "collapse_underscores (d # cs) = d # r"
    by (cases "d = underscore") (simp_all add: collapse_underscores_Cons)
  show ?case using 3 r by auto
qed

lemma collapse_underscores_id: "\<not> doubled_underscore s \<Longrightarrow> collapse_underscores s = s"
  by (induction s rule: collapse_underscores.induct) auto

lemma strip_underscores_decomp: "\<exists>a b. s = a @ strip_underscores s @ b"
proof -
  let ?P = "\<lambda>c. c = underscore"
  let ?m = "rev (dropWhile ?P (rev s))"
  have "s = ?m @ rev (takeWhile ?P (rev s))"
    by (metis rev_append rev_rev_ident takeWhile_dropWhile_id)
  moreover have "?m = takeWhile ?P ?m @ strip_underscores s"
    unfolding strip_underscores_def by simp
  ultimately have "s = takeWhile ?P ?m @ strip_underscores s @ rev (takeWhile ?P (rev s))"
    by (metis append.assoc)
  then show ?thesis by blast
qed

lemma strip_underscores_not_doubled:
  "\<not> doubled_underscore s \<Longrightarrow> \<not> doubled_underscore (strip_underscores s)"
proof -
  assume n: "\<not> doubled_underscore s"
  obtain a b where "s = a @ strip_underscores s @ b" using strip_underscores_decomp by blast
  then have "doubled_underscore (strip_underscores s) \<Longrightarrow> doubled_underscore s"
    by (metis doubled_underscore_append)
  then show ?thesis using n by blast
qed

lemma strip_underscores_ends:
  assumes "strip_underscores s \<noteq> []"
  shows "hd (strip_underscores s) \<noteq> underscore" "last (strip_underscores s) \<noteq> underscore"
proof -
  let ?P = "\<lambda>c. c = underscore"
  let ?m = "rev (dropWhile ?P (rev s))"
  show "hd (strip_underscores s) \<noteq> underscore"
    using assms hd_dropWhile[of ?P ?m] unfolding strip_underscores_def by blast
  have m: "?m \<noteq> []" using assms unfolding strip_underscores_def by (metis dropWhile.simps(1))
  then have "\<not> ?P (last ?m)"
    using hd_dropWhile[of ?P "rev s"] by (simp add: last_rev)
  moreover have "last (dropWhile ?P ?m) = last ?m"
    using assms unfolding strip_underscores_def
    by (metis (full_types) append_Nil2 last_appendR takeWhile_dropWhile_id)
  ultimately show "last (strip_underscores s) \<noteq> underscore"
    unfolding strip_underscores_def by simp
qed

lemma strip_underscores_id:
  "s \<noteq> [] \<Longrightarrow> hd s \<noteq> underscore \<Longrightarrow> last s \<noteq> underscore \<Longrightarrow> strip_underscores s = s"
proof -
  assume a: "s \<noteq> []" "hd s \<noteq> underscore" "last s \<noteq> underscore"
  have "dropWhile (\<lambda>c. c = underscore) (rev s) = rev s"
    using a by (cases "rev s") (auto simp: last_rev hd_rev)
  moreover have "dropWhile (\<lambda>c. c = underscore) s = s" using a by (cases s) auto
  ultimately show ?thesis by (simp add: strip_underscores_def)
qed

lemma cleaned_not_doubled: "\<not> doubled_underscore (cleaned s)"
  unfolding cleaned_def by (intro strip_underscores_not_doubled collapse_underscores_not_doubled)

lemma cleaned_ends:
  "cleaned s \<noteq> [] \<Longrightarrow> hd (cleaned s) \<noteq> underscore \<and> last (cleaned s) \<noteq> underscore"
  unfolding cleaned_def using strip_underscores_ends by blast

lemma sublist_dropWhile_sep:
  "c \<notin> set w \<Longrightarrow> sublist w (dropWhile (\<lambda>x. x = c) xs) = sublist w xs"
proof (induction xs)
  case Nil
  then show ?case by simp
next
  case (Cons x xs)
  then show ?case by (cases w) (auto simp: sublist_Cons_right)
qed

lemma sublist_strip_underscores:
  assumes "underscore \<notin> set w"
  shows "sublist w (strip_underscores s) = sublist w s"
proof -
  let ?P = "\<lambda>c. c = underscore"
  have "sublist w (strip_underscores s) = sublist w (rev (dropWhile ?P (rev s)))"
    unfolding strip_underscores_def using assms by (rule sublist_dropWhile_sep)
  also have "\<dots> = sublist (rev w) (dropWhile ?P (rev s))"
    using sublist_rev[of "rev w" "dropWhile ?P (rev s)"] by simp
  also have "\<dots> = sublist (rev w) (rev s)"
    using assms by (intro sublist_dropWhile_sep) simp
  also have "\<dots> = sublist w s" by simp
  finally show ?thesis .
qed

lemma vendor_prefix_strip_underscores:
  "vendor_prefix (strip_underscores s) = vendor_prefix s"
  by (simp add: vendor_prefix_def sublist_strip_underscores underscore_def)

lemma vendor_prefix_cases:
  "vendor_prefix k = ''CUSTOM_'' \<or> vendor_prefix k = ''CUSTOM_UNKNOWN_''"
  by (simp add: vendor_prefix_def)

lemma vendor_prefix_props:
  "list_all trait_char (vendor_prefix k)" "\<not> doubled_underscore (vendor_prefix k)"
  "vendor_prefix k \<noteq> []" "last (vendor_prefix k) = underscore"
  "hd (vendor_prefix k) = CHR ''C''" "prefix ''CUSTOM_'' (vendor_prefix k)"
  using vendor_prefix_cases[of k]
  by (auto simp: trait_char_def is_upper_def is_digit_def underscore_def)

lemma generate_trait_name_shape:
  "list_all trait_char (generate_trait_name s)"
  "\<not> doubled_underscore (generate_trait_name s)"
  "generate_trait_name s \<noteq> []"
  "hd (generate_trait_name s) \<noteq> underscore"
  "prefix ''CUSTOM_'' (generate_trait_name s)"
proof -
  let ?p = "vendor_prefix (cleaned s)" and ?k = "cleaned s"
  have e: "generate_trait_name [] = ''CUSTOM_UNKNOWN_EMPTY''"
    by (simp add: generate_trait_name_def)
  have n: "s \<noteq> [] \<Longrightarrow> generate_trait_name s = ?p @ ?k"
    by (simp add: generate_trait_name_stepwise stepwise_trait_name_def)
  have k: "?k \<noteq> [] \<Longrightarrow> hd ?k \<noteq> underscore" using cleaned_ends by blast
  show "list_all trait_char (generate_trait_name s)"
  proof (cases "s = []")
    case True
    then show ?thesis
      by (simp add: e trait_char_def is_upper_def is_digit_def underscore_def)
  next
    case False
    then show ?thesis
      by (simp add: n vendor_prefix_props list_all_trait_char_cleaned)
  qed
  show "\<not> doubled_underscore (generate_trait_name s)"
  proof (cases "s = []")
    case True
    then show ?thesis by (simp add: e underscore_def)
  next
    case False
    then show ?thesis
      using k by (auto simp: n doubled_underscore_append vendor_prefix_props cleaned_not_doubled)
  qed
  show "generate_trait_name s \<noteq> []"
    by (cases "s = []") (simp_all add: e n vendor_prefix_props)
  show "hd (generate_trait_name s) \<noteq> underscore"
    by (cases "s = []") (simp_all add: e n vendor_prefix_props underscore_def)
  show "prefix ''CUSTOM_'' (generate_trait_name s)"
  proof (cases "s = []")
    case True
    then show ?thesis by (simp add: e)
  next
    case False
    then show ?thesis
      using vendor_prefix_props(6)[of ?k] n prefix_prefix by metis
  qed
qed

lemma generate_trait_name_last:
  assumes "s = [] \<or> cleaned s \<noteq> []"
  shows "last (generate_trait_name s) \<noteq> underscore"
proof (cases "s = []")
  case True
  then show ?thesis by (simp add: generate_trait_name_def underscore_def)
next
  case False
  then have "cleaned s \<noteq> []" using assms by simp
  then show ?thesis
    using False cleaned_ends[of s]
    by (simp add: generate_trait_name_stepwise stepwise_trait_name_def)
qed

lemma cleaned_of_trait:
  assumes "list_all trait_char t" "\<not> doubled_underscore t"
  shows "cleaned t = strip_underscores t"
proof -
  have u: "upper t = t"
    unfolding upper_def using assms(1) by (intro map_idI) (simp add: list_all_iff trait_char_upper)
  have "strip_trailing_token t = t"
  proof (rule ccontr)
    assume "strip_trailing_token t \<noteq> t"
    from strip_trailing_token_changes[OF this] obtain p0 ws tok tail where
      "t = p0 @ ws @ tok @ tail" "cpu_form ws tok tail" by blast
    then obtain c where "c \<in> set t" "is_space c"
      by (cases ws) (auto simp: cpu_form_def)
    then show False using assms(1) trait_char_not_space by (auto simp: list_all_iff)
  qed
  moreover have "replace_special t = t"
    unfolding replace_special_def using assms(1)
    by (intro map_idI) (simp add: list_all_iff trait_char_keep)
  moreover have "collapse_underscores t = t" using assms(2) by (rule collapse_underscores_id)
  ultimately show ?thesis by (simp add: cleaned_def u)
qed

lemma generate_trait_name_twice:
  "generate_trait_name (generate_trait_name s) =
     vendor_prefix (generate_trait_name s) @ strip_underscores (generate_trait_name s)"
proof -
  let ?t = "generate_trait_name s"
  have "cleaned ?t = strip_underscores ?t"
    using generate_trait_name_shape(1,2) by (rule cleaned_of_trait)
  then show ?thesis
    using generate_trait_name_shape(3)[of s]
    by (simp add: generate_trait_name_stepwise[of ?t] stepwise_trait_name_def
        vendor_prefix_strip_underscores)
qed

lemma generate_trait_name_well_formed:
  assumes "s = [] \<or> cleaned s \<noteq> []"
  shows "well_formed_trait (generate_trait_name s)"
  unfolding well_formed_trait_def
  using generate_trait_name_shape[of s] generate_trait_name_last[OF assms] by simp

section \<open>The trait-name deriver: the claims\<close>

text \<open>
  Claim C2 says that every derived name, also one for a model whose cleaned form is empty,
  has no trailing underscore. For the model \<open>-\<close> the cleaned form is empty and the
  source returns the bare prefix \<open>CUSTOM_UNKNOWN_\<close>, which ends in an underscore;
  \<open>generate_trait_name_well_formed\<close> above shows that this is the only case that
  escapes: the empty model and every model with a non-empty cleaned form get a
  well-formed name.
\<close>

theorem generate_trait_name_empty_cleaned:
  "generate_trait_name ''-'' = ''CUSTOM_UNKNOWN_'' \<and>
   last (generate_trait_name ''-'') = underscore \<and>
   \<not> well_formed_trait (generate_trait_name ''-'')"
  by code_simp

text \<open>
  Claim C3: the three example derivations of the specification.
\<close>

theorem generate_trait_name_examples:
  "generate_trait_name ''Intel(R) Xeon(R) CPU E5-2680 v4 @ 2.40GHz'' =
     ''CUSTOM_INTEL_R_XEON_R_CPU_E5_2680_V4_2_40GHZ'' \<and>
   generate_trait_name ''AMD EPYC 7551P 32-Core Processor'' = ''CUSTOM_AMD_EPYC_7551P_32_CORE'' \<and>
   generate_trait_name '''' = ''CUSTOM_UNKNOWN_EMPTY''"
  by code_simp

text \<open>
  Claim C4 says that the derived name is the composition of the listed steps, the second
  being "strip one trailing CPU or PROCESSOR token". Read as written
  (\<open>claimed_trait_name\<close>), the model \<open>CPU\<close> loses its only token and comes out as
  \<open>CUSTOM_UNKNOWN_\<close>; the source keeps it, since its pattern wants white space before
  the word.
\<close>

theorem claimed_steps_counterexample:
  "generate_trait_name ''CPU'' = ''CUSTOM_UNKNOWN_CPU'' \<and>
   claimed_trait_name ''CPU'' = ''CUSTOM_UNKNOWN_'' \<and>
   generate_trait_name ''CPU'' \<noteq> claimed_trait_name ''CPU''"
  by code_simp

text \<open>
  Claim C4 as amended: for every model that is ASCII text the derived name is the
  composition of upper-casing, \<open>strip_trailing_token\<close> (the word goes only when white
  space stands before it, that white space goes with it, and one final newline after the
  word is allowed and kept), replacing every character outside \<open>[A-Z0-9]\<close> by an
  underscore, collapsing runs of underscores, trimming underscores at both ends, and
  prefixing \<open>CUSTOM_\<close> when the cleaned form contains \<open>INTEL\<close> or \<open>AMD\<close> and
  \<open>CUSTOM_UNKNOWN_\<close> otherwise; the empty model gives \<open>CUSTOM_UNKNOWN_EMPTY\<close>.
\<close>

theorem generate_trait_name_steps:
  assumes "list_all is_ascii s"
  shows "generate_trait_name s =
     (if s = [] then ''CUSTOM_UNKNOWN_EMPTY''
      else (if sublist ''INTEL'' (cleaned s) \<or> sublist ''AMD'' (cleaned s)
            then ''CUSTOM_'' else ''CUSTOM_UNKNOWN_'') @ cleaned s) \<and>
   cleaned s =
     strip_underscores (collapse_underscores (replace_special (strip_trailing_token (upper s))))"
  using generate_trait_name_stepwise[of s]
  by (simp add: stepwise_trait_name_def vendor_prefix_def cleaned_def)

theorem generate_trait_name_steps_witness:
  "list_all is_ascii ''Some Random CPU'' \<and>
   cleaned ''Some Random CPU'' = ''SOME_RANDOM'' \<and>
   generate_trait_name ''Some Random CPU'' = ''CUSTOM_UNKNOWN_SOME_RANDOM''"
proof -
  have a: "list_all is_ascii ''Some Random CPU''"
    by (simp add: is_ascii_def)
  have c: "cleaned ''Some Random CPU'' = ''SOME_RANDOM''"
    by code_simp
  have v: "\<not> sublist ''INTEL'' ''SOME_RANDOM'' \<and> \<not> sublist ''AMD'' ''SOME_RANDOM''"
    by code_simp
  show ?thesis
    using generate_trait_name_steps[OF a] a c v by simp
qed

text \<open>
  Claim C5 says that deriving a name from a derived name gives the same name back. The
  source has no check for a prefix that is already there, so the prefix is added again.
\<close>

theorem not_idempotent_counterexample:
  "generate_trait_name (generate_trait_name ''AMD EPYC 7551P 32-Core Processor'') =
     ''CUSTOM_CUSTOM_AMD_EPYC_7551P_32_CORE'' \<and>
   generate_trait_name (generate_trait_name ''AMD EPYC 7551P 32-Core Processor'') \<noteq>
     generate_trait_name ''AMD EPYC 7551P 32-Core Processor''"
  by code_simp

text \<open>
  Claim C5 as amended: deriving a name from a derived name keeps the characters of that
  name (less the trailing underscore of the bare prefix \<open>CUSTOM_UNKNOWN_\<close>) and puts a
  prefix in front of it once more, \<open>CUSTOM_\<close> when the name contains \<open>INTEL\<close> or
  \<open>AMD\<close> and \<open>CUSTOM_UNKNOWN_\<close> otherwise; the result is never the name itself.
\<close>

theorem generate_trait_name_rederived:
  "generate_trait_name (generate_trait_name s) =
     (if sublist ''INTEL'' (generate_trait_name s) \<or> sublist ''AMD'' (generate_trait_name s)
      then ''CUSTOM_'' else ''CUSTOM_UNKNOWN_'') @ strip_underscores (generate_trait_name s) \<and>
   generate_trait_name (generate_trait_name s) \<noteq> generate_trait_name s"
proof
  let ?t = "generate_trait_name s"
  show e: "generate_trait_name ?t =
     (if sublist ''INTEL'' ?t \<or> sublist ''AMD'' ?t then ''CUSTOM_'' else ''CUSTOM_UNKNOWN_'') @
     strip_underscores ?t"
    using generate_trait_name_twice[of s] by (simp add: vendor_prefix_def)
  show "generate_trait_name ?t \<noteq> ?t"
  proof (cases "s = [] \<or> cleaned s \<noteq> []")
    case True
    have "strip_underscores ?t = ?t"
      using generate_trait_name_shape(3,4)[of s] generate_trait_name_last[OF True]
      by (rule strip_underscores_id)
    then have "length (generate_trait_name ?t) = length (vendor_prefix ?t) + length ?t"
      using generate_trait_name_twice[of s] by simp
    moreover have "vendor_prefix ?t \<noteq> []" by (rule vendor_prefix_props(3))
    ultimately have "length (generate_trait_name ?t) \<noteq> length ?t" by simp
    then show ?thesis by metis
  next
    case False
    then have "?t = ''CUSTOM_UNKNOWN_''"
      by (simp add: generate_trait_name_stepwise stepwise_trait_name_def vendor_prefix_def)
    moreover have "generate_trait_name ''CUSTOM_UNKNOWN_'' \<noteq> ''CUSTOM_UNKNOWN_''"
      by code_simp
    ultimately show ?thesis by simp
  qed
qed

section \<open>The vendor of a CPU model\<close>

















section \<open>The filter stage\<close>

lemma comprehension_filter:
  "(\<And>m. m \<in> set ms \<Longrightarrow> p m = Inr (q m)) \<Longrightarrow> comprehension p ms = Inr (filter q ms)"
  by (induction ms) simp_all

lemma comprehension_subseq: "comprehension p ms = Inr r \<Longrightarrow> subseq r ms"
proof (induction ms arbitrary: r)
  case Nil
  then show ?case by simp
next
  case (Cons m ms)
  then show ?case by (auto split: sum.splits if_splits)
qed

lemma zone_excludes_wf:
  assumes "wf_machine m"
  shows "zone_excludes zone m = Inr (\<not> (case zone of None \<Rightarrow> True | Some z \<Rightarrow> z = [] \<or> in_zone z m))"
proof (cases zone)
  case None
  then show ?thesis by (simp add: zone_excludes_def)
next
  case (Some z)
  from assms consider "map_of m ''zone'' = None" | zd where "map_of m ''zone'' = Some (JObj zd)"
    by (auto simp: wf_machine_def split: option.splits json.splits)
  then show ?thesis
  proof cases
    case 1
    then show ?thesis
      using Some
      by (simp add: zone_excludes_def py_get_def dict_get_def in_zone_def machine_zone_name_def)
  next
    case 2
    then show ?thesis
      using Some
      by (auto simp: zone_excludes_def py_get_def dict_get_def in_zone_def machine_zone_name_def
          split: option.splits)
  qed
qed

lemma status_excludes_deployed:
  "status_excludes deployed_only m = (deployed_only \<and> \<not> deployed m)"
  by (auto simp: status_excludes_def deployed_def dict_get_def split: option.splits)

lemma bare_tags:
  assumes "list_all bare_tag xs"
  shows "list_all hashable xs"
    and "intersects tags xs \<longleftrightarrow> set (List.map_filter tag_name xs) \<inter> set tags \<noteq> {}"
  using assms
proof (induction xs)
  case Nil
  {
    case 1
    then show ?case by simp
  next
    case 2
    then show ?case by (simp add: intersects_def map_filter_simps)
  }
next
  case (Cons x xs)
  {
    case 1
    then show ?case using Cons.IH(1) by (cases x) simp_all
  next
    case 2
    then show ?case
      using Cons.IH(2) by (cases x) (auto simp: intersects_def map_filter_simps)
  }
qed

lemma record_tags:
  assumes "list_all record_tag xs"
  shows "\<exists>ns. tag_names_of xs = Inr ns \<and> list_all hashable ns \<and>
           (intersects tags ns \<longleftrightarrow> set (List.map_filter tag_name xs) \<inter> set tags \<noteq> {})"
  using assms
proof (induction xs)
  case Nil
  then show ?case by (simp add: intersects_def map_filter_simps)
next
  case (Cons x xs)
  then obtain ns where ns: "tag_names_of xs = Inr ns" "list_all hashable ns"
    "intersects tags ns \<longleftrightarrow> set (List.map_filter tag_name xs) \<inter> set tags \<noteq> {}"
    by auto
  from Cons.prems obtain d t where x: "x = JObj d" "map_of d ''name'' = Some (JStr t)"
    by (cases x) (auto split: option.splits json.splits)
  have "tag_names_of (x # xs) = Inr (JStr t # ns)"
    using ns(1) x by (simp add: py_get_def dict_get_def)
  moreover have "list_all hashable (JStr t # ns)" using ns(2) by simp
  moreover have "intersects tags (JStr t # ns) \<longleftrightarrow>
      set (List.map_filter tag_name (x # xs)) \<inter> set tags \<noteq> {}"
    using ns(3) x by (auto simp: intersects_def map_filter_simps)
  ultimately show ?case by blast
qed

lemma tags_exclude_wf:
  assumes "wf_machine m"
  shows "tags_exclude tags m = Inr (\<not> (tags = [] \<or> has_tag_in tags m))"
proof (cases "tags = []")
  case True
  then show ?thesis by (simp add: tags_exclude_def)
next
  case False
  from assms consider (none) "map_of m ''tag_names'' = None"
    | (bare) xs where "map_of m ''tag_names'' = Some (JArr xs)" "list_all bare_tag xs"
    | (rec) xs where "map_of m ''tag_names'' = Some (JArr xs)" "list_all record_tag xs"
        "\<not> list_all bare_tag xs"
    by (auto simp: wf_machine_def split: option.splits json.splits)
  then show ?thesis
  proof cases
    case none
    then show ?thesis
      using False
      by (simp add: tags_exclude_def dict_get_def has_tag_in_def machine_tags_def intersects_def)
  next
    case bare
    have g: "dict_get m ''tag_names'' (JArr []) = JArr xs" using bare(1) by (simp add: dict_get_def)
    have h: "has_tag_in tags m \<longleftrightarrow> intersects tags xs"
      using bare bare_tags(2)[OF bare(2), of tags] by (simp add: has_tag_in_def machine_tags_def)
    show ?thesis
    proof (cases xs)
      case Nil
      then show ?thesis
        using False g h by (simp add: tags_exclude_def)
    next
      case (Cons x xs')
      then have "\<not> is_dict x" using bare(2) by (cases x) simp_all
      then show ?thesis
        using False g h Cons bare_tags(1)[OF bare(2)] by (simp add: tags_exclude_def)
    qed
  next
    case rec
    have g: "dict_get m ''tag_names'' (JArr []) = JArr xs" using rec(1) by (simp add: dict_get_def)
    from record_tags[OF rec(2), of tags] obtain ns where ns: "tag_names_of xs = Inr ns"
      "list_all hashable ns"
      "intersects tags ns \<longleftrightarrow> set (List.map_filter tag_name xs) \<inter> set tags \<noteq> {}"
      by blast
    obtain x xs' where c: "xs = x # xs'" using rec(3) by (cases xs) auto
    then have "is_dict x" using rec(2) by (cases x) simp_all
    then show ?thesis
      using False g c ns rec(1)
      by (simp add: tags_exclude_def has_tag_in_def machine_tags_def)
  qed
qed

lemma should_include_machine_wf:
  assumes "wf_machine m"
  shows "should_include_machine zone deployed_only tags m = Inr (selected zone deployed_only tags m)"
  unfolding should_include_machine_def zone_excludes_wf[OF assms] tags_exclude_wf[OF assms]
    status_excludes_deployed selected_def
  by (auto split: bool.splits)

lemma filter_machines_wf:
  assumes "list_all wf_machine machines"
  shows "filter_machines machines zone deployed_only tags =
           Inr (filter (selected zone deployed_only tags) machines)"
proof (cases "machines = []")
  case True
  then show ?thesis by (simp add: filter_machines_def)
next
  case False
  have "comprehension (should_include_machine zone deployed_only tags) machines =
          Inr (filter (selected zone deployed_only tags) machines)"
    using assms by (intro comprehension_filter should_include_machine_wf) (simp add: list_all_iff)
  then show ?thesis using False by (simp add: filter_machines_def)
qed

text \<open>
  Claim C6: on machine records of the shape above, \<open>filter_machines\<close> returns exactly
  the machines for which every supplied filter holds, in their order; a tag filter holds
  when the tag list and the filter tags overlap, the tag list given as bare strings or as
  records with a name. In particular a supplied zone that no machine has gives the empty
  list.
\<close>

theorem filter_machines_selected:
  assumes "list_all wf_machine machines"
  shows "filter_machines machines zone deployed_only tags =
           Inr (filter (selected zone deployed_only tags) machines) \<and>
         (z \<noteq> [] \<and> list_all (\<lambda>m. \<not> in_zone z m) machines \<longrightarrow>
            filter_machines machines (Some z) deployed_only tags = Inr [])"
proof (intro conjI impI)
  show "filter_machines machines zone deployed_only tags =
           Inr (filter (selected zone deployed_only tags) machines)"
    using assms by (rule filter_machines_wf)
  assume a: "z \<noteq> [] \<and> list_all (\<lambda>m. \<not> in_zone z m) machines"
  then have "filter (selected (Some z) deployed_only tags) machines = []"
    by (auto simp: selected_def list_all_iff filter_empty_conv)
  then show "filter_machines machines (Some z) deployed_only tags = Inr []"
    using filter_machines_wf[OF assms, of "Some z" deployed_only tags] by simp
qed

theorem filter_machines_selected_witness:
  "list_all wf_machine [machine_a, machine_b] \<and>
   filter_machines [machine_a, machine_b] (Some ''zone-1'') True [''compute''] =
     Inr (filter (selected (Some ''zone-1'') True [''compute'']) [machine_a, machine_b]) \<and>
   filter (selected (Some ''zone-1'') True [''compute'']) [machine_a, machine_b] = [machine_a] \<and>
   filter (selected None False [''storage'', ''gpu'']) [machine_a, machine_b] =
     [machine_a, machine_b] \<and>
   ''zone-3'' \<noteq> [] \<and> list_all (\<lambda>m. \<not> in_zone ''zone-3'' m) [machine_a, machine_b] \<and>
   filter_machines [machine_a, machine_b] (Some ''zone-3'') True [''compute''] = Inr []"
proof -
  have w: "list_all wf_machine [machine_a, machine_b]"
    by (simp add: wf_machine_def machine_a_def machine_b_def)
  have z: "''zone-3'' \<noteq> [] \<and> list_all (\<lambda>m. \<not> in_zone ''zone-3'' m) [machine_a, machine_b]"
    by (simp add: in_zone_def machine_zone_name_def machine_a_def machine_b_def)
  have f: "filter (selected (Some ''zone-1'') True [''compute'']) [machine_a, machine_b] =
      [machine_a]"
    by (simp add: selected_def in_zone_def machine_zone_name_def deployed_def has_tag_in_def
        machine_tags_def map_filter_simps machine_a_def machine_b_def)
  have g: "filter (selected None False [''storage'', ''gpu'']) [machine_a, machine_b] =
     [machine_a, machine_b]"
    by (simp add: selected_def has_tag_in_def machine_tags_def map_filter_simps
        machine_a_def machine_b_def)
  show ?thesis
    using filter_machines_selected[OF w, of "Some ''zone-1''" True "[''compute'']" "''zone-3''"]
      w z f g
    by simp
qed

lemma comprehension_all: "(\<And>m. p m = Inr True) \<Longrightarrow> comprehension p ms = Inr ms"
  by (induction ms) simp_all

lemma should_include_machine_no_filter:
  "zone = None \<or> zone = Some [] \<Longrightarrow> should_include_machine zone False [] m = Inr True"
  by (auto simp: should_include_machine_def zone_excludes_def status_excludes_def tags_exclude_def)

text \<open>
  Claim C7: with no filter supplied (no zone or the empty zone, the flag false, no tags)
  \<open>filter_machines\<close> returns the machine list as it is, whatever the records hold.
\<close>

theorem filter_machines_no_filter:
  "filter_machines machines None False [] = Inr machines \<and>
   filter_machines machines (Some []) False [] = Inr machines"
  by (simp add: filter_machines_def comprehension_all should_include_machine_no_filter)

text \<open>
  Claim C10: whatever the machine list and the filters, a list that \<open>filter_machines\<close>
  returns is a subsequence of the machine list: input records, unchanged, each position
  used at most once, in the input order. On machine records of the shape above a list is
  returned.
\<close>

theorem filter_machines_subseq:
  "(filter_machines machines zone deployed_only tags = Inr r \<longrightarrow> subseq r machines) \<and>
   (list_all wf_machine machines \<longrightarrow>
      (\<exists>r. filter_machines machines zone deployed_only tags = Inr r))"
proof (intro conjI impI)
  assume "filter_machines machines zone deployed_only tags = Inr r"
  then show "subseq r machines"
    by (auto simp: filter_machines_def dest: comprehension_subseq split: if_splits)
next
  assume "list_all wf_machine machines"
  then show "\<exists>r. filter_machines machines zone deployed_only tags = Inr r"
    using filter_machines_wf by blast
qed

theorem filter_machines_subseq_witness:
  "filter_machines [machine_a, machine_b] None True [] = Inr [machine_a] \<and>
   subseq [machine_a] [machine_a, machine_b] \<and>
   list_all wf_machine [machine_a, machine_b] \<and>
   (\<exists>r. filter_machines [machine_a, machine_b] None True [] = Inr r)"
proof -
  have e: "filter_machines [machine_a, machine_b] None True [] = Inr [machine_a]"
    by (simp add: filter_machines_def should_include_machine_def zone_excludes_def
        status_excludes_def tags_exclude_def dict_get_def machine_a_def machine_b_def)
  have w: "list_all wf_machine [machine_a, machine_b]"
    by (simp add: wf_machine_def machine_a_def machine_b_def)
  show ?thesis
    using filter_machines_subseq[of "[machine_a, machine_b]" None True "[]" "[machine_a]"] e w
    by blast
qed

section \<open>The inventory fetch\<close>

lemma log_no_get: "list_all (\<lambda>e. \<not> is_get e) (log verbose log_prefix message)"
  by (simp add: log_def)

text \<open>
  Claim C8: when \<open>MAAS_URL\<close> or \<open>MAAS_API_KEY\<close> is not set, or the key does not split
  at colons into exactly three parts, \<open>fetch_maas_data\<close> ends with \<open>sys.exit(1)\<close>, the
  last line on \<open>stderr\<close> is the message that names the missing variables or the
  expected key format, and no inventory request is among its effects.
\<close>

theorem fetch_maas_data_config_exit:
  assumes "environ ''MAAS_URL'' = None \<or> environ ''MAAS_API_KEY'' = None \<or>
           (\<exists>k. environ ''MAAS_API_KEY'' = Some k \<and> length (split_on CHR '':'' k) \<noteq> 3)"
  shows "snd (fetch_maas_data verbose log_prefix environ session_get) = Exit 1 \<and>
         list_all (\<lambda>e. \<not> is_get e) (fst (fetch_maas_data verbose log_prefix environ session_get)) \<and>
         (last (fst (fetch_maas_data verbose log_prefix environ session_get)) =
            Stderr missing_config_message \<or>
          last (fst (fetch_maas_data verbose log_prefix environ session_get)) =
            Stderr malformed_key_message)"
proof -
  let ?out0 = "log verbose log_prefix ''Fetching machine data from MAAS...''"
  have "fetch_maas_data verbose log_prefix environ session_get =
          (?out0 @ [Stderr missing_config_message], Exit 1) \<or>
        fetch_maas_data verbose log_prefix environ session_get =
          (?out0 @ [Stderr malformed_key_message], Exit 1)"
  proof (cases "environ ''MAAS_URL''")
    case None
    then show ?thesis by (simp add: fetch_maas_data_def)
  next
    case u: (Some url)
    show ?thesis
    proof (cases "environ ''MAAS_API_KEY''")
      case None
      then show ?thesis using u by (simp add: fetch_maas_data_def)
    next
      case (Some k)
      then have "length (split_on CHR '':'' k) \<noteq> 3" using assms u by simp
      then show ?thesis using u Some by (simp add: fetch_maas_data_def Let_def)
    qed
  qed
  then show ?thesis using log_no_get[of verbose log_prefix] by auto
qed

theorem fetch_maas_data_config_exit_witness:
  "[''MAAS_API_KEY'' \<mapsto> ''test:key:secret''] ''MAAS_URL'' = None \<and>
   fetch_maas_data False [] [''MAAS_API_KEY'' \<mapsto> ''test:key:secret''] (\<lambda>url auth. Inl (JSONDecodeError [])) =
     ([Stderr missing_config_message], Exit 1) \<and>
   length (split_on CHR '':'' ''key:secret'') \<noteq> 3 \<and>
   snd (fetch_maas_data False []
          [''MAAS_URL'' \<mapsto> ''http://test:5240/MAAS'', ''MAAS_API_KEY'' \<mapsto> ''key:secret'']
          (\<lambda>url auth. Inl (JSONDecodeError []))) = Exit 1 \<and>
   list_all (\<lambda>e. \<not> is_get e)
     (fst (fetch_maas_data False []
          [''MAAS_URL'' \<mapsto> ''http://test:5240/MAAS'', ''MAAS_API_KEY'' \<mapsto> ''key:secret'']
          (\<lambda>url auth. Inl (JSONDecodeError [])))) \<and>
   last (fst (fetch_maas_data False []
          [''MAAS_URL'' \<mapsto> ''http://test:5240/MAAS'', ''MAAS_API_KEY'' \<mapsto> ''key:secret'']
          (\<lambda>url auth. Inl (JSONDecodeError [])))) = Stderr malformed_key_message"
proof -
  let ?e1 = "[''MAAS_API_KEY'' \<mapsto> ''test:key:secret'']"
  let ?e2 = "[''MAAS_URL'' \<mapsto> ''http://test:5240/MAAS'', ''MAAS_API_KEY'' \<mapsto> ''key:secret'']"
  let ?t = "\<lambda>(url::string) (auth::oauth1). (Inl (JSONDecodeError []) :: http_exn + http_response)"
  have h1: "?e1 ''MAAS_URL'' = None" by simp
  have h2: "?e2 ''MAAS_API_KEY'' = Some ''key:secret'' \<and> length (split_on CHR '':'' ''key:secret'') \<noteq> 3"
    by simp
  have c1: "fetch_maas_data False [] ?e1 ?t = ([Stderr missing_config_message], Exit 1)"
    by (simp add: fetch_maas_data_def log_def)
  have c2: "last (fst (fetch_maas_data False [] ?e2 ?t)) = Stderr malformed_key_message"
    by (simp add: fetch_maas_data_def log_def)
  have a1: "?e1 ''MAAS_URL'' = None \<or> ?e1 ''MAAS_API_KEY'' = None \<or>
      (\<exists>k. ?e1 ''MAAS_API_KEY'' = Some k \<and> length (split_on CHR '':'' k) \<noteq> 3)"
    using h1 by blast
  have a2: "?e2 ''MAAS_URL'' = None \<or> ?e2 ''MAAS_API_KEY'' = None \<or>
      (\<exists>k. ?e2 ''MAAS_API_KEY'' = Some k \<and> length (split_on CHR '':'' k) \<noteq> 3)"
    using h2 by blast
  show ?thesis
    using fetch_maas_data_config_exit[OF a1, of False "[]" ?t]
      fetch_maas_data_config_exit[OF a2, of False "[]" ?t] h1 h2 c1 c2
    by blast
qed

section \<open>The generation-conflict retry\<close>

lemma write_attempts_append [simp]:
  "write_attempts (xs @ ys) = write_attempts xs + write_attempts ys"
  by (simp add: write_attempts_def)

lemma write_attempts_simps [simp]:
  "write_attempts [] = 0"
  "write_attempts (GET e # xs) = write_attempts xs"
  "write_attempts (PUT e t g # xs) = Suc (write_attempts xs)"
  by (simp_all add: write_attempts_def)

lemma py_get_generation:
  "status_code r \<in> set SUCCESS_HTTP_CODES \<Longrightarrow> json_result r = Inr d \<Longrightarrow>
   py_get d ''generation'' (JNum 0) = Inr g \<Longrightarrow> read_generation r = Some g"
  by (cases d) (simp_all add: py_get_def read_generation_def)

lemma retry_loop_trace:
  "\<exists>calls. snd (retry_loop api rp traits atts trace) = trace @ calls \<and>
           fresh_reads api rp traits trace calls \<and> write_attempts calls \<le> length atts"
proof (induction atts arbitrary: trace)
  case Nil
  then show ?case by simp
next
  case (Cons a atts)
  let ?read = "GET (provider_endpoint rp)"
  have lone: "fresh_reads api rp traits trace [?read] \<and> write_attempts [?read] \<le> length (a # atts)"
    by simp
  show ?case
  proof (cases "api trace ?read")
    case (Inl e)
    then show ?thesis using lone by simp
  next
    case (Inr r)
    show ?thesis
    proof (cases "read_generation r")
      case None
      then have "snd (retry_loop api rp traits (a # atts) trace) = trace @ [?read]"
        using Inr
        by (auto simp: read_generation_def py_get_def Let_def
            split: sum.splits json.splits if_splits)
      then show ?thesis using lone by blast
    next
      case (Some g)
      let ?put = "PUT (traits_endpoint rp) traits g"
      have ok: "status_code r \<in> set SUCCESS_HTTP_CODES" and
        gen: "\<exists>d. json_result r = Inr d \<and> py_get d ''generation'' (JNum 0) = Inr g"
        using Some
        by (auto simp: read_generation_def py_get_def split: sum.splits json.splits if_splits)
      then obtain d where d: "json_result r = Inr d" "py_get d ''generation'' (JNum 0) = Inr g"
        by blast
      have pair: "fresh_reads api rp traits trace [?read, ?put]"
        using Inr Some by simp
      have stop: "write_attempts [?read, ?put] \<le> length (a # atts)" by simp
      from Cons.IH[of "trace @ [?read, ?put]"] obtain calls where
        c: "snd (retry_loop api rp traits atts (trace @ [?read, ?put])) =
              (trace @ [?read, ?put]) @ calls"
          "fresh_reads api rp traits (trace @ [?read, ?put]) calls"
          "write_attempts calls \<le> length atts"
        by blast
      have more: "fresh_reads api rp traits trace (?read # ?put # calls) \<and>
          write_attempts (?read # ?put # calls) \<le> length (a # atts)"
        using Inr Some c(2,3) by simp
      have "snd (retry_loop api rp traits (a # atts) trace) = trace @ [?read, ?put] \<or>
            snd (retry_loop api rp traits (a # atts) trace) = trace @ ?read # ?put # calls"
        using Inr ok d c(1) by (auto simp: Let_def split: sum.splits)
      then show ?thesis using pair stop more by blast
    qed
  qed
qed

lemma retry_loop_step:
  assumes "api trace (GET (provider_endpoint rp)) = Inr r" "read_generation r = Some g"
    "api (trace @ [GET (provider_endpoint rp)]) (PUT (traits_endpoint rp) traits g) = Inr w"
  shows "retry_loop api rp traits (a # rest) trace =
     (if status_code w \<in> set SUCCESS_HTTP_CODES
      then (True, trace @ [GET (provider_endpoint rp), PUT (traits_endpoint rp) traits g])
      else if status_code w = 409 \<and> a < MAX_RETRIES - 1
      then retry_loop api rp traits rest
             (trace @ [GET (provider_endpoint rp), PUT (traits_endpoint rp) traits g])
      else (False, trace @ [GET (provider_endpoint rp), PUT (traits_endpoint rp) traits g]))"
proof -
  have ok: "status_code r \<in> set SUCCESS_HTTP_CODES" and
    "\<exists>d. json_result r = Inr d \<and> py_get d ''generation'' (JNum 0) = Inr g"
    using assms(2)
    by (auto simp: read_generation_def py_get_def split: sum.splits json.splits if_splits)
  then obtain d where d: "json_result r = Inr d" "py_get d ''generation'' (JNum 0) = Inr g"
    by blast
  show ?thesis using assms(1,3) ok d by (simp add: Let_def)
qed

text \<open>One round against a service whose reads succeed and whose writes are scripted.\<close>

lemma retry_loop_round:
  assumes "reads_succeed api rp" "writes_receive api rp traits statuses"
    "write_attempts trace < length statuses"
  shows "\<exists>t'. write_attempts t' = Suc (write_attempts trace) \<and>
     retry_loop api rp traits (a # rest) trace =
     (if statuses ! write_attempts trace \<in> set SUCCESS_HTTP_CODES then (True, t')
      else if statuses ! write_attempts trace = 409 \<and> a < MAX_RETRIES - 1
      then retry_loop api rp traits rest t'
      else (False, t'))"
proof -
  let ?read = "GET (provider_endpoint rp)"
  from assms(1) obtain r g where r: "api trace ?read = Inr r" "read_generation r = Some g"
    unfolding reads_succeed_def by fastforce
  have "write_attempts (trace @ [?read]) < length statuses" using assms(3) by simp
  with assms(2) obtain w where w: "api (trace @ [?read]) (PUT (traits_endpoint rp) traits g) = Inr w"
    "status_code w = statuses ! write_attempts (trace @ [?read])"
    unfolding writes_receive_def by blast
  let ?t = "trace @ [?read, PUT (traits_endpoint rp) traits g]"
  have "write_attempts ?t = Suc (write_attempts trace)" by simp
  moreover have "retry_loop api rp traits (a # rest) trace =
     (if statuses ! write_attempts trace \<in> set SUCCESS_HTTP_CODES then (True, ?t)
      else if statuses ! write_attempts trace = 409 \<and> a < MAX_RETRIES - 1
      then retry_loop api rp traits rest ?t
      else (False, ?t))"
    using retry_loop_step[OF r w(1), of a rest] w(2) by simp
  ultimately show ?thesis by blast
qed

lemma attempts_list: "[0..<MAX_RETRIES] = [0, 1, 2]"
  by (simp add: MAX_RETRIES_def upt_rec)

lemma conflict_not_success: "(409::int) \<notin> set SUCCESS_HTTP_CODES"
  by (simp add: SUCCESS_HTTP_CODES_def)

lemma retry_loop_conflict_round:
  assumes "reads_succeed api rp" "writes_receive api rp traits statuses"
    "write_attempts trace = n" "n < length statuses" "statuses ! n = 409"
    "a < MAX_RETRIES - 1"
  shows "\<exists>t'. write_attempts t' = Suc n \<and>
     retry_loop api rp traits (a # rest) trace = retry_loop api rp traits rest t'"
proof -
  have "write_attempts trace < length statuses" using assms(3,4) by simp
  from retry_loop_round[OF assms(1,2) this, of a rest] obtain t' where
    t: "write_attempts t' = Suc (write_attempts trace)"
    "retry_loop api rp traits (a # rest) trace =
     (if statuses ! write_attempts trace \<in> set SUCCESS_HTTP_CODES then (True, t')
      else if statuses ! write_attempts trace = 409 \<and> a < MAX_RETRIES - 1
      then retry_loop api rp traits rest t'
      else (False, t'))"
    by blast
  have "retry_loop api rp traits (a # rest) trace = retry_loop api rp traits rest t'"
    unfolding t(2) using assms(3,5,6) conflict_not_success by simp
  then show ?thesis using t(1) assms(3) by blast
qed

lemma retry_loop_last_round:
  assumes "reads_succeed api rp" "writes_receive api rp traits statuses"
    "write_attempts trace = n" "n < length statuses"
    "\<not> a < MAX_RETRIES - 1"
  shows "\<exists>t'. write_attempts t' = Suc n \<and>
     retry_loop api rp traits (a # rest) trace =
       (statuses ! n \<in> set SUCCESS_HTTP_CODES, t')"
proof -
  have "write_attempts trace < length statuses" using assms(3,4) by simp
  from retry_loop_round[OF assms(1,2) this, of a rest] obtain t' where
    t: "write_attempts t' = Suc (write_attempts trace)"
    "retry_loop api rp traits (a # rest) trace =
     (if statuses ! write_attempts trace \<in> set SUCCESS_HTTP_CODES then (True, t')
      else if statuses ! write_attempts trace = 409 \<and> a < MAX_RETRIES - 1
      then retry_loop api rp traits rest t'
      else (False, t'))"
    by blast
  have "retry_loop api rp traits (a # rest) trace =
       (statuses ! n \<in> set SUCCESS_HTTP_CODES, t')"
    unfolding t(2) using assms(3,5) by simp
  then show ?thesis using t(1) assms(3) by blast
qed

text \<open>Two conflicts, then the outcome of the third write decides.\<close>

lemma third_attempt_decides:
  assumes "reads_succeed api rp" "writes_receive api rp traits [409, 409, s]"
  shows "\<exists>calls. set_resource_provider_traits api rp traits =
                    (s \<in> set SUCCESS_HTTP_CODES, calls) \<and>
           write_attempts calls = 3"
proof -
  have m: "(0::nat) < MAX_RETRIES - 1" "Suc 0 < MAX_RETRIES - 1" "\<not> Suc (Suc 0) < MAX_RETRIES - 1"
    by (simp_all add: MAX_RETRIES_def)
  have l: "[0..<MAX_RETRIES] = [0, Suc 0, Suc (Suc 0)]"
    by (simp add: MAX_RETRIES_def upt_rec)
  from retry_loop_conflict_round[OF assms, of "[]" 0 0 "[Suc 0, Suc (Suc 0)]"] m(1)
  obtain t1 where t1: "write_attempts t1 = Suc 0"
    "retry_loop api rp traits [0, Suc 0, Suc (Suc 0)] [] =
     retry_loop api rp traits [Suc 0, Suc (Suc 0)] t1"
    by (auto simp del: retry_loop.simps)
  from retry_loop_conflict_round[OF assms t1(1), of "Suc 0" "[Suc (Suc 0)]"] m(2)
  obtain t2 where t2: "write_attempts t2 = Suc (Suc 0)"
    "retry_loop api rp traits [Suc 0, Suc (Suc 0)] t1 =
     retry_loop api rp traits [Suc (Suc 0)] t2"
    by (auto simp del: retry_loop.simps)
  from retry_loop_last_round[OF assms t2(1) _ m(3), of "[]"]
  obtain t3 where t3: "write_attempts t3 = Suc (Suc (Suc 0))"
    "retry_loop api rp traits [Suc (Suc 0)] t2 = (s \<in> set SUCCESS_HTTP_CODES, t3)"
    by (auto simp del: retry_loop.simps)
  have "set_resource_provider_traits api rp traits = (s \<in> set SUCCESS_HTTP_CODES, t3)"
    unfolding set_resource_provider_traits_def l t1(2) t2(2) t3(2) ..
  moreover have "write_attempts t3 = 3" using t3(1) by simp
  ultimately show ?thesis by blast
qed

lemma two_conflicts_then_success:
  assumes "reads_succeed api rp" "writes_receive api rp traits [409, 409, s]"
    "s \<in> set SUCCESS_HTTP_CODES"
  shows "\<exists>calls. set_resource_provider_traits api rp traits = (True, calls) \<and>
           write_attempts calls = 3"
  using third_attempt_decides[OF assms(1,2)] assms(3) by simp

lemma three_conflicts:
  assumes "reads_succeed api rp" "writes_receive api rp traits [409, 409, 409]"
  shows "\<exists>calls. set_resource_provider_traits api rp traits = (False, calls) \<and>
           write_attempts calls = 3"
  using third_attempt_decides[OF assms] conflict_not_success by simp

text \<open>
  Claim C1: whatever the service answers, \<open>_set_resource_provider_traits\<close> makes at
  most three write attempts, and every write follows a read of the provider made in the
  same round and carries the generation that read returned. When the reads succeed and
  the writes are answered with a conflict (409) on attempts 1 and 2 and a success status
  on attempt 3, the result is \<open>True\<close> after three write attempts, that is two retries.
  When all three write attempts are answered with a conflict, the result is \<open>False\<close>
  and no fourth write is made.
\<close>

theorem set_resource_provider_traits_retry:
  "write_attempts (snd (set_resource_provider_traits api rp traits)) \<le> 3 \<and>
   fresh_reads api rp traits [] (snd (set_resource_provider_traits api rp traits)) \<and>
   (reads_succeed api rp \<and> writes_receive api rp traits [409, 409, s] \<and>
    s \<in> set SUCCESS_HTTP_CODES \<longrightarrow>
      (\<exists>calls. set_resource_provider_traits api rp traits = (True, calls) \<and>
               write_attempts calls = 3 \<and> retries calls = 2)) \<and>
   (reads_succeed api rp \<and> writes_receive api rp traits [409, 409, 409] \<longrightarrow>
      (\<exists>calls. set_resource_provider_traits api rp traits = (False, calls) \<and>
               write_attempts calls = 3))"
proof -
  from retry_loop_trace[of api rp traits "[0..<MAX_RETRIES]" "[]"] obtain calls where
    "snd (set_resource_provider_traits api rp traits) = calls"
    "fresh_reads api rp traits [] calls" "write_attempts calls \<le> 3"
    by (auto simp: set_resource_provider_traits_def MAX_RETRIES_def)
  then have a: "write_attempts (snd (set_resource_provider_traits api rp traits)) \<le> 3 \<and>
      fresh_reads api rp traits [] (snd (set_resource_provider_traits api rp traits))"
    by simp
  have b: "reads_succeed api rp \<and> writes_receive api rp traits [409, 409, s] \<and>
    s \<in> set SUCCESS_HTTP_CODES \<longrightarrow>
      (\<exists>calls. set_resource_provider_traits api rp traits = (True, calls) \<and>
               write_attempts calls = 3 \<and> retries calls = 2)"
    using two_conflicts_then_success[of api rp traits s] by (auto simp: retries_def)
  have c: "reads_succeed api rp \<and> writes_receive api rp traits [409, 409, 409] \<longrightarrow>
      (\<exists>calls. set_resource_provider_traits api rp traits = (False, calls) \<and>
               write_attempts calls = 3)"
    using three_conflicts[of api rp traits] by blast
  show ?thesis using a b c by blast
qed

lemma scripted_reads: "reads_succeed (scripted statuses) rp"
  by (simp add: reads_succeed_def scripted_def read_generation_def SUCCESS_HTTP_CODES_def)

lemma scripted_writes: "writes_receive (scripted statuses) rp traits statuses"
  by (simp add: writes_receive_def scripted_def)

theorem set_resource_provider_traits_retry_witness:
  "reads_succeed (scripted [409, 409, 200]) ''rp-1'' \<and>
   writes_receive (scripted [409, 409, 200]) ''rp-1'' [''CUSTOM_A''] [409, 409, 200] \<and>
   200 \<in> set SUCCESS_HTTP_CODES \<and>
   (\<exists>calls. set_resource_provider_traits (scripted [409, 409, 200]) ''rp-1'' [''CUSTOM_A''] =
              (True, calls) \<and> write_attempts calls = 3 \<and> retries calls = 2) \<and>
   reads_succeed (scripted [409, 409, 409]) ''rp-1'' \<and>
   writes_receive (scripted [409, 409, 409]) ''rp-1'' [''CUSTOM_A''] [409, 409, 409] \<and>
   (\<exists>calls. set_resource_provider_traits (scripted [409, 409, 409]) ''rp-1'' [''CUSTOM_A''] =
              (False, calls) \<and> write_attempts calls = 3)"
proof -
  have s: "(200::int) \<in> set SUCCESS_HTTP_CODES" by (simp add: SUCCESS_HTTP_CODES_def)
  show ?thesis
    using set_resource_provider_traits_retry[of "scripted [409, 409, 200]" "''rp-1''"
        "[''CUSTOM_A'']" 200]
      set_resource_provider_traits_retry[of "scripted [409, 409, 409]" "''rp-1''"
        "[''CUSTOM_A'']" 200]
      scripted_reads scripted_writes s
    by blast
qed

end
